theory Spec2Isabelle
  imports Complex_Main "HOL-Library.AList" "HOL-Library.Multiset"
begin

section \<open>The host environment of the local cache helper\<close>

text \<open>
  The local cache helper is two functions, generic in the type \<open>T\<close> of the cached
  value, that call four things of the host: the global \<^verbatim>\<open>localStorage\<close> (its
  presence, \<^verbatim>\<open>getItem\<close>, \<^verbatim>\<open>setItem\<close>), \<^verbatim>\<open>JSON.stringify\<close>, \<^verbatim>\<open>JSON.parse\<close> and
  \<^verbatim>\<open>console.log\<close>. The host is a record, passed through every call and returned updated;
  the type variable \<open>'v\<close> is the source's \<open>T\<close>.
\<close>

datatype js_error = SyntaxError | TypeError | SecurityError | QuotaExceededError | ReferenceError

text \<open>What reading \<^verbatim>\<open>globalThis.localStorage\<close> gives: \<^verbatim>\<open>undefined\<close> (no storage, as on a
  server), an exception (a browser that blocks storage), or the storage object.\<close>

datatype ls_global = Undefined | AccessThrows js_error | Defined

record 'v host =
  localStorage :: ls_global
  window_throws :: "js_error option"
  getItem_throws :: "js_error option"
  setItem_throws :: "string \<Rightarrow> string \<Rightarrow> js_error option"
  items :: "string \<rightharpoonup> string"
  console :: "js_error list"
  JSON_stringify :: "'v \<Rightarrow> js_error + string option"
  JSON_parse :: "string \<Rightarrow> js_error + 'v"

text \<open>
  \<^item> \<open>window_throws\<close>: \<open>Some e\<close> when evaluating \<^verbatim>\<open>window.localStorage\<close> throws \<open>e\<close>
    (the check reads the global through \<^verbatim>\<open>globalThis\<close>, the calls go through \<^verbatim>\<open>window\<close>,
    which is not there outside a page);
  \<^item> \<open>getItem_throws\<close>: \<open>Some e\<close> when the call of \<^verbatim>\<open>getItem\<close> throws \<open>e\<close>;
  \<^item> \<open>setItem_throws k s\<close>: \<open>Some e\<close> when storing \<open>s\<close> under \<open>k\<close> throws \<open>e\<close> (a full
    quota, a blocked store);
  \<^item> \<open>items\<close>: the stored strings; an absent key reads as \<^verbatim>\<open>null\<close>, here \<open>None\<close>;
  \<^item> \<open>console\<close>: what \<^verbatim>\<open>console.log\<close> has printed, oldest first;
  \<^item> \<open>JSON_stringify v\<close>: \<open>Inl e\<close> when serialising throws (a cyclic object),
    \<open>Inr None\<close> when it returns \<^verbatim>\<open>undefined\<close> (for \<^verbatim>\<open>undefined\<close>, a function),
    \<open>Inr (Some s)\<close> for the JSON text \<open>s\<close>;
  \<^item> \<open>JSON_parse s\<close>: \<open>Inl e\<close> when \<open>s\<close> is not a JSON text, \<open>Inr v\<close> for its value.

  A computation returns its outcome, \<open>Inl\<close> an exception that left it and \<open>Inr\<close> its value,
  together with the host as it is then.
\<close>

type_synonym ('a, 'v) js = "(js_error + 'a) \<times> 'v host"

definition getItem :: "string \<Rightarrow> 'v host \<Rightarrow> (string option, 'v) js" where
  "getItem key h =
     (case getItem_throws h of
        Some e \<Rightarrow> (Inl e, h)
      | None \<Rightarrow> (Inr (items h key), h))"

text \<open>\<^verbatim>\<open>setItem\<close> takes a string: an \<^verbatim>\<open>undefined\<close> argument is converted to the text
  \<^verbatim>\<open>undefined\<close> before it is stored.\<close>

definition DOMString_of :: "string option \<Rightarrow> string" where
  "DOMString_of t = (case t of None \<Rightarrow> ''undefined'' | Some s \<Rightarrow> s)"

definition setItem :: "string \<Rightarrow> string \<Rightarrow> 'v host \<Rightarrow> (unit, 'v) js" where
  "setItem key s h =
     (case setItem_throws h key s of
        Some e \<Rightarrow> (Inl e, h)
      | None \<Rightarrow> (Inr (), h\<lparr>items := (items h)(key \<mapsto> s)\<rparr>))"

definition console_log :: "js_error \<Rightarrow> 'v host \<Rightarrow> (unit, 'v) js" where
  "console_log err h = (Inr (), h\<lparr>console := console h @ [err]\<rparr>)"

text \<open>The test \<^verbatim>\<open>if (storedData)\<close>: what \<^verbatim>\<open>getItem\<close> returned is truthy when it is
  neither \<^verbatim>\<open>null\<close> nor the empty string, and then it is that string.\<close>

definition truthy :: "string option \<Rightarrow> string option" where
  "truthy t = (case t of None \<Rightarrow> None | Some s \<Rightarrow> if s = [] then None else Some s)"

section \<open>The local cache helper\<close>

text \<open>
  \<^verbatim>\<open>
  export const setLocalStorage = <T>(key: string, data: T): void => {
    try {
      if (globalThis.localStorage === undefined) {
        return
      }
      window.localStorage.setItem(key, JSON.stringify(data))
    } catch (err) {
      console.log(err)
    }
  }
  \<close>
  The body of the \<^verbatim>\<open>try\<close> first, then the function with its handler.
\<close>

definition setLocalStorage_body :: "string \<Rightarrow> 'v \<Rightarrow> 'v host \<Rightarrow> (unit, 'v) js" where
  "setLocalStorage_body key data h =
     (case localStorage h of
        AccessThrows e \<Rightarrow> (Inl e, h)
      | Undefined \<Rightarrow> (Inr (), h)
      | Defined \<Rightarrow>
          (case window_throws h of
             Some e \<Rightarrow> (Inl e, h)
           | None \<Rightarrow>
               (case JSON_stringify h data of
                  Inl e \<Rightarrow> (Inl e, h)
                | Inr t \<Rightarrow> setItem key (DOMString_of t) h)))"

definition setLocalStorage :: "string \<Rightarrow> 'v \<Rightarrow> 'v host \<Rightarrow> (unit, 'v) js" where
  "setLocalStorage key data h =
     (case setLocalStorage_body key data h of
        (Inr u, h') \<Rightarrow> (Inr u, h')
      | (Inl err, h') \<Rightarrow> console_log err h')"

text \<open>
  \<^verbatim>\<open>
  export const getLocalStorage = <T>(key: string, initialValue: T): T => {
    try {
      if (globalThis.localStorage === undefined) {
        return initialValue
      }
      const storedData = window.localStorage.getItem(key)
      if (storedData) return JSON.parse(storedData)
      setLocalStorage(key, initialValue)
      return initialValue
    } catch (err) {
      console.log(err)
      return initialValue
    }
  }
  \<close>
\<close>

definition getLocalStorage_body :: "string \<Rightarrow> 'v \<Rightarrow> 'v host \<Rightarrow> ('v, 'v) js" where
  "getLocalStorage_body key initialValue h =
     (case localStorage h of
        AccessThrows e \<Rightarrow> (Inl e, h)
      | Undefined \<Rightarrow> (Inr initialValue, h)
      | Defined \<Rightarrow>
          (case window_throws h of
             Some e \<Rightarrow> (Inl e, h)
           | None \<Rightarrow>
               (case getItem key h of
                  (Inl e, h1) \<Rightarrow> (Inl e, h1)
                | (Inr storedData, h1) \<Rightarrow>
                    (case truthy storedData of
                       Some s \<Rightarrow> (JSON_parse h1 s, h1)
                     | None \<Rightarrow>
                         (case setLocalStorage key initialValue h1 of
                            (Inl e, h2) \<Rightarrow> (Inl e, h2)
                          | (Inr u, h2) \<Rightarrow> (Inr initialValue, h2))))))"

definition getLocalStorage :: "string \<Rightarrow> 'v \<Rightarrow> 'v host \<Rightarrow> ('v, 'v) js" where
  "getLocalStorage key initialValue h =
     (case getLocalStorage_body key initialValue h of
        (Inr v, h') \<Rightarrow> (Inr v, h')
      | (Inl err, h') \<Rightarrow>
          (case console_log err h' of
             (Inl e, h'') \<Rightarrow> (Inl e, h'')
           | (Inr u, h'') \<Rightarrow> (Inr initialValue, h'')))"

section \<open>A host: JSON over a fragment of the values\<close>

text \<open>
  \<^verbatim>\<open>JSON.stringify\<close> and \<^verbatim>\<open>JSON.parse\<close> belong to the engine, not to the repository,
  and the helper is stated for every host. Here is one host to run it in, whose values are
  the JSON values: \<^verbatim>\<open>null\<close>, booleans, numbers, strings, arrays and objects, with a printer
  and a parser of JSON texts; the parser reads back what the printer prints, which is
  proved below.

  A number is a decimal \<open>m \<times> 10\<^sup>e\<close>, written \<open>JNumber m e\<close> with \<open>m\<close> not a multiple of ten
  (or \<open>JNumber 0 0\<close>): the digits and the exponent of the shortest decimal of a double, which
  is what the engine prints. The rounding of longer numerals to doubles is not modelled.
  Strings are over the 8-bit characters of \<open>char\<close>; a four-digit unicode escape above
  \<^verbatim>\<open>00ff\<close> names a character outside this type and is not read. An object is the list of
  its members in property order; a key read twice keeps its first place and its last
  value, and the engine's moving of integer-like keys to the front is not modelled.
\<close>

datatype json =
    JNull
  | JBool bool
  | JNumber int int
  | JString string
  | JArray "json list"
  | JObject "(string \<times> json) list"

definition dquote :: char where "dquote = CHR 0x22"
definition backslash :: char where "backslash = CHR 0x5C"

definition digit_char :: "nat \<Rightarrow> char" where
  "digit_char d = char_of (48 + d)"

fun show_nat :: "nat \<Rightarrow> string" where
  "show_nat n = (if n < 10 then [digit_char n] else show_nat (n div 10) @ [digit_char (n mod 10)])"

declare show_nat.simps [simp del]

definition hex_char :: "nat \<Rightarrow> char" where
  "hex_char d = (if d < 10 then char_of (48 + d) else char_of (87 + d))"

text \<open>The numeral of a number, as \<^verbatim>\<open>Number::toString\<close> prints it: plain digits up to
  21 places, a leading \<^verbatim>\<open>0.\<close> down to six, an exponent beyond.\<close>

definition show_number :: "int \<Rightarrow> int \<Rightarrow> string" where
  "show_number m e =
     (let s = show_nat (nat \<bar>m\<bar>);
          k = int (length s);
          n = k + e;
          sign = (if m < 0 then ''-'' else '''');
          body =
            (if k \<le> n \<and> n \<le> 21 then s @ replicate (nat (n - k)) CHR ''0''
             else if 0 < n \<and> n \<le> 21 then take (nat n) s @ ''.'' @ drop (nat n) s
             else if - 6 < n \<and> n \<le> 0 then ''0.'' @ replicate (nat (- n)) CHR ''0'' @ s
             else (if k = 1 then s else take 1 s @ ''.'' @ drop 1 s)
                  @ ''e'' @ (if 0 < n - 1 then ''+'' else ''-'') @ show_nat (nat \<bar>n - 1\<bar>))
      in sign @ body)"

definition quote_char :: "char \<Rightarrow> string" where
  "quote_char c =
     (let n = (of_char c :: nat) in
      if c = dquote then [backslash, dquote]
      else if c = backslash then [backslash, backslash]
      else if n = 8 then [backslash, CHR ''b'']
      else if n = 9 then [backslash, CHR ''t'']
      else if n = 10 then [backslash, CHR ''n'']
      else if n = 12 then [backslash, CHR ''f'']
      else if n = 13 then [backslash, CHR ''r'']
      else if n < 32 then [backslash, CHR ''u'', CHR ''0'', CHR ''0'', hex_char (n div 16), hex_char (n mod 16)]
      else [c])"

definition quote :: "string \<Rightarrow> string" where
  "quote s = dquote # concat (map quote_char s) @ [dquote]"

fun commas :: "string list \<Rightarrow> string" where
  "commas [] = []"
| "commas [x] = x"
| "commas (x # y # ys) = x @ '','' @ commas (y # ys)"

fun stringify :: "json \<Rightarrow> string" where
  "stringify JNull = ''null''"
| "stringify (JBool b) = (if b then ''true'' else ''false'')"
| "stringify (JNumber m e) = show_number m e"
| "stringify (JString s) = quote s"
| "stringify (JArray vs) = ''['' @ commas (map stringify vs) @ '']''"
| "stringify (JObject ms) = ''{'' @ commas (map (\<lambda>m. quote (fst m) @ '':'' @ stringify (snd m)) ms) @ ''}''"

text \<open>Reading a JSON text: a recursive descent over the characters. The first argument
  of \<open>parse_value\<close> bounds the depth of the calls; \<open>parse_json\<close> gives it twice the length
  of the text and two, which is enough for every text that \<open>stringify\<close> prints.\<close>

definition is_ws :: "char \<Rightarrow> bool" where
  "is_ws c = (c = CHR '' '' \<or> c = CHR 0x09 \<or> c = CHR 0x0A \<or> c = CHR 0x0D)"

definition skip_ws :: "string \<Rightarrow> string" where
  "skip_ws s = dropWhile is_ws s"

definition is_digit :: "char \<Rightarrow> bool" where
  "is_digit c = (48 \<le> (of_char c :: nat) \<and> (of_char c :: nat) \<le> 57)"

definition nat_of_digits :: "string \<Rightarrow> nat" where
  "nat_of_digits ds = foldl (\<lambda>a c. 10 * a + ((of_char c :: nat) - 48)) 0 ds"

definition hex_val :: "char \<Rightarrow> nat option" where
  "hex_val c =
     (let n = (of_char c :: nat) in
      if 48 \<le> n \<and> n \<le> 57 then Some (n - 48)
      else if 97 \<le> n \<and> n \<le> 102 then Some (n - 87)
      else if 65 \<le> n \<and> n \<le> 70 then Some (n - 55)
      else None)"

definition unescape :: "char \<Rightarrow> char option" where
  "unescape d =
     (if d = dquote \<or> d = backslash \<or> d = CHR ''/'' then Some d
      else if d = CHR ''b'' then Some (CHR 0x08)
      else if d = CHR ''t'' then Some (CHR 0x09)
      else if d = CHR ''n'' then Some (CHR 0x0A)
      else if d = CHR ''f'' then Some (CHR 0x0C)
      else if d = CHR ''r'' then Some (CHR 0x0D)
      else None)"

definition unicode_escape :: "string \<Rightarrow> char option" where
  "unicode_escape ds =
     (case map hex_val ds of
        [Some a, Some b, Some c, Some d] \<Rightarrow>
          if a = 0 \<and> b = 0 then Some (char_of (16 * c + d)) else None
      | _ \<Rightarrow> None)"

fun parse_chars :: "string \<Rightarrow> (string \<times> string) option" where
  "parse_chars [] = None"
| "parse_chars (c # cs) =
     (if c = dquote then Some ([], cs)
      else if c = backslash then
        (case cs of
           [] \<Rightarrow> None
         | d # ds \<Rightarrow>
             if d = CHR ''u'' then
               (case unicode_escape (take 4 ds) of
                  None \<Rightarrow> None
                | Some ch \<Rightarrow>
                    (case parse_chars (drop 4 ds) of
                       None \<Rightarrow> None
                     | Some (str, rest) \<Rightarrow> Some (ch # str, rest)))
             else
               (case unescape d of
                  None \<Rightarrow> None
                | Some ch \<Rightarrow>
                    (case parse_chars ds of
                       None \<Rightarrow> None
                     | Some (str, rest) \<Rightarrow> Some (ch # str, rest))))
      else if (of_char c :: nat) < 32 then None
      else (case parse_chars cs of
              None \<Rightarrow> None
            | Some (str, rest) \<Rightarrow> Some (c # str, rest)))"

definition parse_number :: "string \<Rightarrow> (json \<times> string) option" where
  "parse_number s =
     (let neg = (take 1 s = ''-'');
          s1 = (if neg then drop 1 s else s);
          ip = takeWhile is_digit s1;
          s2 = dropWhile is_digit s1;
          has_frac = (take 1 s2 = ''.'');
          fp = (if has_frac then takeWhile is_digit (drop 1 s2) else []);
          s3 = (if has_frac then dropWhile is_digit (drop 1 s2) else s2);
          has_exp = (take 1 s3 = ''e'' \<or> take 1 s3 = ''E'');
          s4 = (if has_exp then drop 1 s3 else s3);
          eneg = (has_exp \<and> take 1 s4 = ''-'');
          s5 = (if has_exp \<and> (take 1 s4 = ''-'' \<or> take 1 s4 = ''+'') then drop 1 s4 else s4);
          ep = (if has_exp then takeWhile is_digit s5 else []);
          s6 = (if has_exp then dropWhile is_digit s5 else s3);
          ds = ip @ fp;
          tz = length (takeWhile (\<lambda>c. c = CHR ''0'') (rev ds));
          m = int (nat_of_digits (take (length ds - tz) ds));
          e = (if eneg then - int (nat_of_digits ep) else int (nat_of_digits ep))
                - int (length fp) + int tz
      in if ip = [] \<or> (1 < length ip \<and> take 1 ip = ''0'') \<or> (has_frac \<and> fp = [])
              \<or> (has_exp \<and> ep = [])
         then None
         else if m = 0 then Some (JNumber 0 0, s6)
         else Some (JNumber (if neg then - m else m) e, s6))"

fun parse_value :: "nat \<Rightarrow> string \<Rightarrow> (json \<times> string) option"
  and parse_elements :: "nat \<Rightarrow> json list \<Rightarrow> string \<Rightarrow> (json \<times> string) option"
  and parse_members :: "nat \<Rightarrow> (string \<times> json) list \<Rightarrow> string \<Rightarrow> (json \<times> string) option"
where
  "parse_value 0 s = None"
| "parse_value (Suc n) s =
     (case skip_ws s of
        [] \<Rightarrow> None
      | c # cs \<Rightarrow>
          if c = CHR ''['' then
            (if take 1 (skip_ws cs) = '']'' then Some (JArray [], drop 1 (skip_ws cs))
             else parse_elements n [] cs)
          else if c = CHR ''{'' then
            (if take 1 (skip_ws cs) = ''}'' then Some (JObject [], drop 1 (skip_ws cs))
             else parse_members n [] cs)
          else if c = dquote then
            (case parse_chars cs of
               None \<Rightarrow> None
             | Some (str, rest) \<Rightarrow> Some (JString str, rest))
          else if take 4 (c # cs) = ''null'' then Some (JNull, drop 4 (c # cs))
          else if take 4 (c # cs) = ''true'' then Some (JBool True, drop 4 (c # cs))
          else if take 5 (c # cs) = ''false'' then Some (JBool False, drop 5 (c # cs))
          else parse_number (c # cs))"
| "parse_elements 0 acc s = None"
| "parse_elements (Suc n) acc s =
     (case parse_value n s of
        None \<Rightarrow> None
      | Some (v, rest) \<Rightarrow>
          (case skip_ws rest of
             [] \<Rightarrow> None
           | c # cs \<Rightarrow>
               if c = CHR '','' then parse_elements n (acc @ [v]) cs
               else if c = CHR '']'' then Some (JArray (acc @ [v]), cs)
               else None))"
| "parse_members 0 acc s = None"
| "parse_members (Suc n) acc s =
     (case skip_ws s of
        [] \<Rightarrow> None
      | c # cs \<Rightarrow>
          if c \<noteq> dquote then None
          else
            (case parse_chars cs of
               None \<Rightarrow> None
             | Some (k, r1) \<Rightarrow>
                 if take 1 (skip_ws r1) \<noteq> '':'' then None
                 else
                   (case parse_value n (drop 1 (skip_ws r1)) of
                      None \<Rightarrow> None
                    | Some (v, r2) \<Rightarrow>
                        (case skip_ws r2 of
                           [] \<Rightarrow> None
                         | e # es \<Rightarrow>
                             if e = CHR '','' then parse_members n (AList.update k v acc) es
                             else if e = CHR ''}'' then Some (JObject (AList.update k v acc), es)
                             else None))))"

definition parse_json :: "string \<Rightarrow> json option" where
  "parse_json s =
     (case parse_value (2 * length s + 2) s of
        None \<Rightarrow> None
      | Some (v, rest) \<Rightarrow> if skip_ws rest = [] then Some v else None)"

text \<open>
  The values that stand for values of the engine: a number in the form above (the digits
  do not end in a zero), an object with no key twice.
\<close>

definition canonical :: "int \<Rightarrow> int \<Rightarrow> bool" where
  "canonical m e = (if m = 0 then e = 0 else \<not> 10 dvd m)"

fun wf_json :: "json \<Rightarrow> bool" where
  "wf_json JNull = True"
| "wf_json (JBool b) = True"
| "wf_json (JNumber m e) = canonical m e"
| "wf_json (JString s) = True"
| "wf_json (JArray vs) = (\<forall>v \<in> set vs. wf_json v)"
| "wf_json (JObject ms) = (distinct (map fst ms) \<and> (\<forall>m \<in> set ms. wf_json (snd m)))"

text \<open>What the proof that \<open>parse_json\<close> reads back what \<open>stringify\<close> prints speaks of:
  strings of digits; what may follow a numeral and what may follow a value; the value that
  \<open>parse_number\<close> computes from the integer digits, the fraction digits and the exponent;
  the first character of a JSON text; the text of a member of an object; and the depth of
  calls that reading a value takes.\<close>

definition digits :: "string \<Rightarrow> bool" where
  "digits ds = (\<forall>c \<in> set ds. is_digit c)"

definition stops :: "string \<Rightarrow> bool" where
  "stops rest = (case rest of [] \<Rightarrow> True
     | c # r \<Rightarrow> \<not> is_digit c \<and> c \<noteq> CHR ''.'' \<and> c \<noteq> CHR ''e'' \<and> c \<noteq> CHR ''E'')"

definition delimited :: "string \<Rightarrow> bool" where
  "delimited rest = (case rest of [] \<Rightarrow> True
     | c # r \<Rightarrow> c = CHR '','' \<or> c = CHR '']'' \<or> c = CHR ''}'')"

definition number_of :: "bool \<Rightarrow> string \<Rightarrow> string \<Rightarrow> int \<Rightarrow> json" where
  "number_of neg ip fp ex =
     (let ds = ip @ fp;
          tz = length (takeWhile (\<lambda>c. c = CHR ''0'') (rev ds));
          m = int (nat_of_digits (take (length ds - tz) ds));
          e = ex - int (length fp) + int tz
      in if m = 0 then JNumber 0 0 else JNumber (if neg then - m else m) e)"

definition starts :: "char \<Rightarrow> bool" where
  "starts c = (c = CHR ''n'' \<or> c = CHR ''t'' \<or> c = CHR ''f'' \<or> c = dquote
     \<or> c = CHR ''['' \<or> c = CHR ''{'' \<or> c = CHR ''-'' \<or> is_digit c)"

definition member_text :: "string \<times> json \<Rightarrow> string" where
  "member_text m = quote (fst m) @ '':'' @ stringify (snd m)"

fun need :: "json \<Rightarrow> nat" where
  "need (JArray vs) = Suc (length vs + sum_list (map need vs))"
| "need (JObject ms) = Suc (length ms + sum_list (map (\<lambda>m. need (snd m)) ms))"
| "need v = Suc 0"

definition JSON_stringify_json :: "json \<Rightarrow> js_error + string option" where
  "JSON_stringify_json v = Inr (Some (stringify v))"

definition JSON_parse_json :: "string \<Rightarrow> js_error + json" where
  "JSON_parse_json s = (case parse_json s of None \<Rightarrow> Inl SyntaxError | Some v \<Rightarrow> Inr v)"

text \<open>A browser whose storage works and holds \<open>m\<close>; a server, where the global is
  \<^verbatim>\<open>undefined\<close>; a browser that has the global and refuses every operation on it; a
  worker, where the global is there and \<^verbatim>\<open>window\<close> is not.\<close>

definition browser :: "(string \<rightharpoonup> string) \<Rightarrow> json host" where
  "browser m =
     \<lparr>localStorage = Defined, window_throws = None,
      getItem_throws = None, setItem_throws = (\<lambda>k s. None),
      items = m, console = [],
      JSON_stringify = JSON_stringify_json, JSON_parse = JSON_parse_json\<rparr>"

definition server :: "json host" where
  "server = (browser Map.empty)\<lparr>localStorage := Undefined\<rparr>"

definition blocked_browser :: "(string \<rightharpoonup> string) \<Rightarrow> json host" where
  "blocked_browser m =
     (browser m)\<lparr>getItem_throws := Some SecurityError,
                 setItem_throws := (\<lambda>k s. Some QuotaExceededError)\<rparr>"

definition worker :: "(string \<rightharpoonup> string) \<Rightarrow> json host" where
  "worker m = (browser m)\<lparr>window_throws := Some ReferenceError\<rparr>"

text \<open>The type \<open>T\<close> of the source is any type, and a caller may pass a value that is not
  a JSON value. Here are the JSON values together with \<^verbatim>\<open>undefined\<close>, for which
  \<^verbatim>\<open>JSON.stringify\<close> returns \<^verbatim>\<open>undefined\<close> and not a text, and a browser whose storage works
  and whose values are of this type.\<close>

datatype js_value = JSUndefined | JSValue json

definition JSON_stringify_js :: "js_value \<Rightarrow> js_error + string option" where
  "JSON_stringify_js v =
     (case v of JSUndefined \<Rightarrow> Inr None | JSValue j \<Rightarrow> Inr (Some (stringify j)))"

definition JSON_parse_js :: "string \<Rightarrow> js_error + js_value" where
  "JSON_parse_js s = (case parse_json s of None \<Rightarrow> Inl SyntaxError | Some j \<Rightarrow> Inr (JSValue j))"

definition page :: "(string \<rightharpoonup> string) \<Rightarrow> js_value host" where
  "page m =
     \<lparr>localStorage = Defined, window_throws = None,
      getItem_throws = None, setItem_throws = (\<lambda>k s. None),
      items = m, console = [],
      JSON_stringify = JSON_stringify_js, JSON_parse = JSON_parse_js\<rparr>"

section \<open>What the claims speak of\<close>

text \<open>Storage is available to a read when the global is there, \<^verbatim>\<open>window.localStorage\<close>
  evaluates and \<^verbatim>\<open>getItem\<close> answers; to the write of \<open>s\<close> under \<open>k\<close> when the global is
  there, \<^verbatim>\<open>window.localStorage\<close> evaluates and \<^verbatim>\<open>setItem\<close> takes \<open>s\<close>.\<close>

definition can_read :: "'v host \<Rightarrow> bool" where
  "can_read h = (localStorage h = Defined \<and> window_throws h = None \<and> getItem_throws h = None)"

definition can_write :: "'v host \<Rightarrow> string \<Rightarrow> string \<Rightarrow> bool" where
  "can_write h k s =
     (localStorage h = Defined \<and> window_throws h = None \<and> setItem_throws h k s = None)"

text \<open>It is unavailable to a read when the global is missing, or reading it,
  evaluating \<^verbatim>\<open>window.localStorage\<close> or \<^verbatim>\<open>getItem\<close> throws; to the write of \<open>v\<close> under \<open>k\<close>
  when the global is missing, or reading it, evaluating \<^verbatim>\<open>window.localStorage\<close>,
  serialising \<open>v\<close> or \<^verbatim>\<open>setItem\<close> throws.\<close>

definition read_unavailable :: "'v host \<Rightarrow> bool" where
  "read_unavailable h =
     (localStorage h \<noteq> Defined \<or> window_throws h \<noteq> None \<or> getItem_throws h \<noteq> None)"

definition write_unavailable :: "'v host \<Rightarrow> string \<Rightarrow> 'v \<Rightarrow> bool" where
  "write_unavailable h k v =
     (localStorage h \<noteq> Defined \<or> window_throws h \<noteq> None \<or>
      (case JSON_stringify h v of
         Inl e \<Rightarrow> True
       | Inr t \<Rightarrow> setItem_throws h k (DOMString_of t) \<noteq> None))"

text \<open>A value \<open>v\<close> is JSON-serializable, with text \<open>s\<close>, when \<^verbatim>\<open>JSON.stringify\<close> gives it the
  JSON text \<open>s\<close> (a JSON text is never empty) and \<^verbatim>\<open>JSON.parse\<close> reads \<open>s\<close> back as \<open>v\<close>.\<close>

definition json_serializable :: "'v host \<Rightarrow> 'v \<Rightarrow> string \<Rightarrow> bool" where
  "json_serializable h v s =
     (JSON_stringify h v = Inr (Some s) \<and> s \<noteq> [] \<and> JSON_parse h s = Inr v)"

text \<open>A stored string is corrupted when it is there, not empty, and \<^verbatim>\<open>JSON.parse\<close> throws
  on it.\<close>

definition corrupted :: "'v host \<Rightarrow> string \<Rightarrow> string \<Rightarrow> js_error \<Rightarrow> bool" where
  "corrupted h k s e = (items h k = Some s \<and> s \<noteq> [] \<and> JSON_parse h s = Inl e)"

section \<open>The content loader, the scroll provider and the heading slugs\<close>

text \<open>
  The listing of the articles, the scroll provider and the slug transform are not among
  the source files at hand: only an article with its front matter, the component that
  draws the scroll bar from the provider's value, and the list of dependencies are. Their
  definitions below follow the specification's words.
\<close>

text \<open>Modelled from the spec: the Article of the data model, with the attributes the
  front matter gives it and the raw body; the compiled body, a renderable tree, is left
  out.\<close>

record article =
  title :: string
  date :: string
  published :: bool
  listed :: bool
  description :: string
  tags :: "string list"
  raw_body :: string

text \<open>A content file: the route of the article and the article read from it.\<close>

type_synonym content_file = "string \<times> article"

definition in_index :: "content_file \<Rightarrow> bool" where
  \<comment> \<open>Modelled from the spec: the listing code of the content loader is missing; only
      articles with \<open>listed = true\<close> and \<open>published = true\<close> appear in a generated index.\<close>
  "in_index f = (listed (snd f) \<and> published (snd f))"

definition generated_index :: "(string \<Rightarrow> int) \<Rightarrow> content_file list \<Rightarrow> content_file list" where
  \<comment> \<open>Modelled from the spec: the listing code of the content loader is missing; the index
      holds the articles that may be listed, in descending date order. The date is a
      human-readable string; \<open>timestamp\<close> is the reading of it as a point in time. Articles
      of one date keep the order of the input.\<close>
  "generated_index timestamp files =
     sort_key (\<lambda>f. - timestamp (date (snd f))) (filter in_index files)"

text \<open>Modelled from the spec: what a route resolves to, a page or the not-found state.\<close>

datatype route_result = NotFound | Page article

definition resolve_route :: "content_file list \<Rightarrow> string \<Rightarrow> route_result" where
  \<comment> \<open>Modelled from the spec: the route code of the content loader is missing; an article
      with \<open>published = false\<close> is excluded even if directly linked.\<close>
  "resolve_route files path =
     (case map_of files path of
        None \<Rightarrow> NotFound
      | Some a \<Rightarrow> if published a then Page a else NotFound)"

text \<open>An article, with the front matter of the one at hand, and a reading of two dates
  as days.\<close>

definition post :: article where
  "post = \<lparr>title = ''Suspense in React 18'', date = ''August 21 2022'', published = True,
           listed = True, description = ''Suspense'', tags = [''react'', ''suspense''],
           raw_body = ''## What is Suspense?''\<rparr>"

definition days :: "string \<Rightarrow> int" where
  "days d = (if d = ''August 21 2022'' then 20220821 else if d = ''May 1 2021'' then 20210501 else 0)"

definition scroll_percent :: "int \<Rightarrow> int \<Rightarrow> real" where
  \<comment> \<open>Modelled from the spec: the scroll provider is missing; percent is the current
      vertical offset over the maximum possible offset, times 100, clamped to [0, 100], and
      0 when the document has no overflow. Offsets are whole pixels; the quotient is taken
      in the reals.\<close>
  "scroll_percent offset maxOffset =
     (if maxOffset = 0 then 0
      else min 100 (max 0 (real_of_int offset / real_of_int maxOffset * 100)))"

definition is_alnum :: "char \<Rightarrow> bool" where
  \<comment> \<open>Modelled from the spec: the slug transform is missing; the alphanumeric characters
      are the digits and the letters of ASCII.\<close>
  "is_alnum c =
     (let n = (of_char c :: nat)
      in (48 \<le> n \<and> n \<le> 57) \<or> (65 \<le> n \<and> n \<le> 90) \<or> (97 \<le> n \<and> n \<le> 122))"

definition is_space :: "char \<Rightarrow> bool" where
  \<comment> \<open>Modelled from the spec: the slug transform is missing; the spaces between words.\<close>
  "is_space c = (c = CHR '' '' \<or> c = CHR 0x09 \<or> c = CHR 0x0A \<or> c = CHR 0x0D)"

definition lower_case :: "char \<Rightarrow> char" where
  \<comment> \<open>Modelled from the spec: the slug transform is missing; lower-casing, of the letters
      of ASCII.\<close>
  "lower_case c =
     (let n = (of_char c :: nat) in if 65 \<le> n \<and> n \<le> 90 then char_of (n + 32) else c)"

fun collapse :: "bool \<Rightarrow> string \<Rightarrow> string" where
  \<comment> \<open>Modelled from the spec: the slug transform is missing; a run of characters that
      are not alphanumeric becomes a single separator. The flag says that the run has
      begun.\<close>
  "collapse in_run [] = []"
| "collapse in_run (c # cs) =
     (if is_alnum c then c # collapse False cs
      else if in_run then collapse True cs
      else CHR ''-'' # collapse True cs)"

definition slug :: "string \<Rightarrow> string" where
  \<comment> \<open>Modelled from the spec: the slug transform is missing; the heading text is
      lower-cased, punctuation (what is neither alphanumeric nor white space) is stripped,
      and the runs of what is left between the words collapse to one separator.\<close>
  "slug text = collapse False (filter (\<lambda>c. is_alnum c \<or> is_space c) (map lower_case text))"

section \<open>The local cache helper: what a call does\<close>

lemmas helper_defs = setLocalStorage_def setLocalStorage_body_def getLocalStorage_def
  getLocalStorage_body_def getItem_def setItem_def console_log_def truthy_def DOMString_of_def

lemma setLocalStorage_writes:
  "can_write h k s \<Longrightarrow> JSON_stringify h v = Inr (Some s) \<Longrightarrow>
   setLocalStorage k v h = (Inr (), h\<lparr>items := (items h)(k \<mapsto> s)\<rparr>)"
  by (simp add: helper_defs can_write_def)

lemma getLocalStorage_stored:
  "can_read h \<Longrightarrow> items h k = Some s \<Longrightarrow> s \<noteq> [] \<Longrightarrow>
   getLocalStorage k fb h =
     (case JSON_parse h s of
        Inr v \<Rightarrow> (Inr v, h)
      | Inl e \<Rightarrow> (Inr fb, h\<lparr>console := console h @ [e]\<rparr>))"
  by (simp add: helper_defs can_read_def split: sum.splits)

lemma getLocalStorage_seeds:
  "can_read h \<Longrightarrow> items h k = None \<or> items h k = Some [] \<Longrightarrow>
   getLocalStorage k fb h = (Inr fb, snd (setLocalStorage k fb h))"
  by (auto simp add: helper_defs can_read_def split: sum.splits ls_global.splits option.splits)

lemma setLocalStorage_never_throws: "fst (setLocalStorage k v h) = Inr ()"
  by (simp add: helper_defs split: sum.splits ls_global.splits option.splits)

lemma getLocalStorage_never_throws: "\<exists>x. fst (getLocalStorage k fb h) = Inr x"
  by (simp add: helper_defs split: sum.splits ls_global.splits option.splits)

lemma setLocalStorage_frame: "k' \<noteq> k \<Longrightarrow> items (snd (setLocalStorage k v h)) k' = items h k'"
  by (simp add: helper_defs split: sum.splits ls_global.splits option.splits)

lemma getLocalStorage_frame: "k' \<noteq> k \<Longrightarrow> items (snd (getLocalStorage k v h)) k' = items h k'"
  by (simp add: helper_defs split: sum.splits ls_global.splits option.splits)

section \<open>The JSON of the host reads back what it prints\<close>

subsection \<open>Strings\<close>

text \<open>What \<open>quote\<close> writes between the quotation marks, \<open>parse_chars\<close> reads back.\<close>

lemma char_eq_of_nat: "(of_char c :: nat) = n \<Longrightarrow> c = char_of n"
  by (metis char_of_char)

lemma hex_val_hex_char: "d < 16 \<Longrightarrow> hex_val (hex_char d) = Some d"
  unfolding hex_val_def hex_char_def Let_def
  by (auto simp add: Let_def)

lemma unicode_escape_low:
  assumes "n < 32"
  shows "unicode_escape (take 4 (CHR ''0'' # CHR ''0'' # hex_char (n div 16) # hex_char (n mod 16) # rest))
           = Some (char_of n)"
proof -
  have "n div 16 < 16" "n mod 16 < 16" using assms by auto
  then show ?thesis
    by (simp add: unicode_escape_def hex_val_hex_char) (simp add: hex_val_def)
qed

lemma char_of_named:
  "char_of (8::nat) = CHR 0x08" "char_of (9::nat) = CHR 0x09" "char_of (10::nat) = CHR 0x0A"
  "char_of (12::nat) = CHR 0x0C" "char_of (13::nat) = CHR 0x0D"
  by code_simp+

lemma parse_chars_quote_char:
  assumes "parse_chars rest = Some (str, rest')"
  shows "parse_chars (quote_char c @ rest) = Some (c # str, rest')"
proof -
  let ?n = "of_char c :: nat"
  consider (dq) "c = dquote" | (bs) "c = backslash"
    | (named) "c \<noteq> dquote" "c \<noteq> backslash" "?n = 8 \<or> ?n = 9 \<or> ?n = 10 \<or> ?n = 12 \<or> ?n = 13"
    | (ctrl) "c \<noteq> dquote" "c \<noteq> backslash" "?n < 32" "\<not> (?n = 8 \<or> ?n = 9 \<or> ?n = 10 \<or> ?n = 12 \<or> ?n = 13)"
    | (plain) "c \<noteq> dquote" "c \<noteq> backslash" "\<not> ?n < 32"
    by linarith
  then show ?thesis
  proof cases
    case dq
    with assms show ?thesis
      by (simp add: quote_char_def unescape_def dquote_def backslash_def)
  next
    case bs
    with assms show ?thesis
      by (simp add: quote_char_def unescape_def dquote_def backslash_def)
  next
    case named
    from named(3) have "c = CHR 0x08 \<or> c = CHR 0x09 \<or> c = CHR 0x0A \<or> c = CHR 0x0C \<or> c = CHR 0x0D"
      by (auto dest!: char_eq_of_nat simp add: char_of_named)
    with assms show ?thesis
      by (auto simp add: quote_char_def unescape_def dquote_def backslash_def)
  next
    case ctrl
    have "char_of ?n = c" by simp
    with assms ctrl unicode_escape_low [OF ctrl(3)] show ?thesis
      by (simp add: quote_char_def Let_def backslash_def dquote_def)
  next
    case plain
    with assms show ?thesis
      by (auto simp add: quote_char_def Let_def)
  qed
qed

lemma parse_chars_quoted:
  "parse_chars (concat (map quote_char s) @ dquote # rest) = Some (s, rest)"
  by (induction s) (simp_all add: parse_chars_quote_char)

lemma parse_chars_quote: "parse_chars (tl (quote s) @ rest) = Some (s, rest)"
  by (simp add: quote_def parse_chars_quoted)

subsection \<open>Numerals\<close>

text \<open>First the cutting of a numeral into sign, integer digits, fraction digits and
  exponent; then the digits that \<open>show_nat\<close> writes; then the four shapes of
  \<open>show_number\<close>.\<close>

lemma is_digit_simps [simp]:
  "\<not> is_digit (CHR ''.'')" "\<not> is_digit (CHR ''e'')" "\<not> is_digit (CHR ''E'')"
  "\<not> is_digit (CHR ''-'')" "\<not> is_digit (CHR ''+'')" "is_digit (CHR ''0'')"
  by (simp_all add: is_digit_def)

lemma takeWhile_digits: "digits ds \<Longrightarrow> takeWhile is_digit ds = ds"
  by (simp add: digits_def)

lemma dropWhile_digits: "digits ds \<Longrightarrow> dropWhile is_digit ds = []"
  by (simp add: digits_def)

lemma takeWhile_digits_stop: "digits ds \<Longrightarrow> \<not> is_digit c \<Longrightarrow> takeWhile is_digit (ds @ c # r) = ds"
  by (simp add: digits_def takeWhile_append2)

lemma dropWhile_digits_stop: "digits ds \<Longrightarrow> \<not> is_digit c \<Longrightarrow> dropWhile is_digit (ds @ c # r) = c # r"
  by (simp add: digits_def dropWhile_append2)

lemma takeWhile_digits_stops: "digits ds \<Longrightarrow> stops rest \<Longrightarrow> takeWhile is_digit (ds @ rest) = ds"
  by (cases rest) (simp_all add: stops_def takeWhile_digits takeWhile_digits_stop)

lemma dropWhile_digits_stops: "digits ds \<Longrightarrow> stops rest \<Longrightarrow> dropWhile is_digit (ds @ rest) = rest"
  by (cases rest) (simp_all add: stops_def dropWhile_digits dropWhile_digits_stop)

lemma take1_stops: "stops rest \<Longrightarrow> take 1 rest \<noteq> ''.'' \<and> take 1 rest \<noteq> ''e'' \<and> take 1 rest \<noteq> ''E''"
  by (cases rest) (simp_all add: stops_def)

lemma nat_of_digits_Nil [simp]: "nat_of_digits [] = 0"
  by (simp add: nat_of_digits_def)

lemma parse_number_tokens:
  assumes "digits ip" "ip \<noteq> []" "\<not> (1 < length ip \<and> take 1 ip = ''0'')"
    and "digits fp" "digits ep" "stops rest"
    and "hf \<longrightarrow> fp \<noteq> []" "\<not> hf \<longrightarrow> fp = []" "he \<longrightarrow> ep \<noteq> []"
  shows "parse_number ((if neg then ''-'' else []) @ ip
            @ (if hf then CHR ''.'' # fp else [])
            @ (if he then CHR ''e'' # (if eneg then CHR ''-'' else CHR ''+'') # ep else [])
            @ rest)
         = Some (number_of neg ip fp
                  (if he then (if eneg then - int (nat_of_digits ep) else int (nat_of_digits ep))
                   else 0), rest)"
proof -
  obtain c cs where ip: "ip = c # cs" using assms(2) by (cases ip) auto
  with assms(1) have c: "is_digit c" by (simp add: digits_def)
  then have cm: "c \<noteq> CHR ''-''" by auto
  note t = take1_stops [OF assms(6)]
  have tw: "\<And>r. takeWhile is_digit (ip @ CHR ''.'' # r) = ip"
       "\<And>r. dropWhile is_digit (ip @ CHR ''.'' # r) = CHR ''.'' # r"
       "\<And>r. takeWhile is_digit (ip @ CHR ''e'' # r) = ip"
       "\<And>r. dropWhile is_digit (ip @ CHR ''e'' # r) = CHR ''e'' # r"
       "\<And>r. takeWhile is_digit (fp @ CHR ''e'' # r) = fp"
       "\<And>r. dropWhile is_digit (fp @ CHR ''e'' # r) = CHR ''e'' # r"
       "takeWhile is_digit (ip @ rest) = ip" "dropWhile is_digit (ip @ rest) = rest"
       "takeWhile is_digit (fp @ rest) = fp" "dropWhile is_digit (fp @ rest) = rest"
       "takeWhile is_digit (ep @ rest) = ep" "dropWhile is_digit (ep @ rest) = rest"
    using assms(1,4,5,6)
    by (simp_all add: takeWhile_digits_stop dropWhile_digits_stop
          takeWhile_digits_stops dropWhile_digits_stops)
  show ?thesis
  proof (cases neg)
    case True
    with assms t tw show ?thesis
      unfolding parse_number_def number_of_def
      by (cases hf; cases he; cases eneg) (simp_all add: Let_def)
  next
    case False
    with assms t tw cm ip show ?thesis
      unfolding parse_number_def number_of_def
      by (cases hf; cases he; cases eneg) (simp_all add: Let_def)
  qed
qed

lemma digit_char_0: "digit_char 0 = CHR ''0''"
  by code_simp

lemma of_char_digit_char: "d < 10 \<Longrightarrow> (of_char (digit_char d) :: nat) = 48 + d"
  by (simp add: digit_char_def)

lemma digit_char_props:
  assumes "d < 10"
  shows "is_digit (digit_char d)" "(of_char (digit_char d) :: nat) - 48 = d"
    "digit_char d = CHR ''0'' \<longleftrightarrow> d = 0"
proof -
  note o = of_char_digit_char [OF assms]
  from o show "(of_char (digit_char d) :: nat) - 48 = d" by simp
  from o assms show "is_digit (digit_char d)" by (simp add: is_digit_def)
  show "digit_char d = CHR ''0'' \<longleftrightarrow> d = 0"
  proof
    assume "digit_char d = CHR ''0''"
    then have "(of_char (digit_char d) :: nat) = of_char (CHR ''0'')" by (rule arg_cong)
    with o show "d = 0" by simp
  next
    assume "d = 0"
    then show "digit_char d = CHR ''0''" by (simp add: digit_char_0)
  qed
qed

lemma show_nat_not_Nil [simp]: "show_nat n \<noteq> []"
  by (subst show_nat.simps) simp

lemma show_nat_small: "n < 10 \<Longrightarrow> show_nat n = [digit_char n]"
  by (subst show_nat.simps) simp

lemma show_nat_big: "\<not> n < 10 \<Longrightarrow> show_nat n = show_nat (n div 10) @ [digit_char (n mod 10)]"
  by (subst show_nat.simps) simp

lemma show_nat_digits: "digits (show_nat n)"
proof (induction n rule: show_nat.induct)
  case (1 n)
  show ?case
  proof (cases "n < 10")
    case True
    then show ?thesis by (simp add: show_nat_small digits_def digit_char_props)
  next
    case False
    with 1 show ?thesis by (simp add: show_nat_big digits_def digit_char_props)
  qed
qed

lemma nat_of_digits_snoc:
  "nat_of_digits (ds @ [c]) = 10 * nat_of_digits ds + ((of_char c :: nat) - 48)"
  by (simp add: nat_of_digits_def)

lemma nat_of_digits_show_nat: "nat_of_digits (show_nat n) = n"
proof (induction n rule: show_nat.induct)
  case (1 n)
  show ?case
  proof (cases "n < 10")
    case True
    then show ?thesis by (simp add: show_nat_small nat_of_digits_def digit_char_props)
  next
    case False
    with 1 show ?thesis by (simp add: show_nat_big nat_of_digits_snoc digit_char_props)
  qed
qed

lemma show_nat_hd: "0 < n \<Longrightarrow> take 1 (show_nat n) \<noteq> ''0''"
proof (induction n rule: show_nat.induct)
  case (1 n)
  show ?case
  proof (cases "n < 10")
    case True
    with 1(2) show ?thesis by (simp add: show_nat_small digit_char_props)
  next
    case False
    then have "0 < n div 10" by simp
    with 1(1) False have h: "take 1 (show_nat (n div 10)) \<noteq> ''0''" by simp
    obtain x xs where x: "show_nat (n div 10) = x # xs"
      by (cases "show_nat (n div 10)") auto
    from False have sb: "show_nat n = show_nat (n div 10) @ [digit_char (n mod 10)]"
      by (rule show_nat_big)
    from h show ?thesis unfolding sb x by simp
  qed
qed

lemma show_nat_last: "0 < n \<Longrightarrow> \<not> 10 dvd n \<Longrightarrow> last (show_nat n) \<noteq> CHR ''0''"
proof -
  assume n: "0 < n" and d: "\<not> 10 dvd n"
  then have m: "n mod 10 \<noteq> 0" by (simp add: dvd_eq_mod_eq_0)
  have l: "last (show_nat n) = digit_char (n mod 10)"
    by (cases "n < 10") (simp_all add: show_nat_small show_nat_big)
  from m show ?thesis by (simp add: l digit_char_props)
qed

lemma nat_of_digits_zeros: "nat_of_digits (replicate z (CHR ''0'') @ ds) = nat_of_digits ds"
proof -
  have "foldl (\<lambda>a c. 10 * a + ((of_char c :: nat) - 48)) 0 (replicate z (CHR ''0'')) = 0"
    by (induction z) simp_all
  then show ?thesis by (simp add: nat_of_digits_def)
qed

lemma takeWhile_zeros:
  "c \<noteq> CHR ''0'' \<Longrightarrow> takeWhile (\<lambda>c. c = CHR ''0'') (replicate z (CHR ''0'') @ c # r) = replicate z (CHR ''0'')"
  by (induction z) simp_all

lemma number_of_value:
  assumes "0 < a" and "\<not> 10 dvd a"
    and "ip @ fp = replicate zl (CHR ''0'') @ show_nat a @ replicate zt (CHR ''0'')"
  shows "number_of neg ip fp ex
       = JNumber (if neg then - int a else int a) (ex - int (length fp) + int zt)"
proof -
  let ?s = "show_nat a"
  let ?z = "\<lambda>c. c = CHR ''0''"
  have l: "last ?s \<noteq> CHR ''0''" using assms(1,2) by (rule show_nat_last)
  have "rev ?s \<noteq> []" by simp
  then obtain c cs where r: "rev ?s = c # cs" by (cases "rev ?s") auto
  have "hd (rev ?s) = last ?s" by (simp add: hd_rev)
  with r l have c: "c \<noteq> CHR ''0''" by simp
  have "rev (ip @ fp) = replicate zt (CHR ''0'') @ c # (cs @ replicate zl (CHR ''0''))"
    unfolding assms(3) using r by simp
  then have "takeWhile ?z (rev (ip @ fp)) = replicate zt (CHR ''0'')"
    by (simp only: takeWhile_zeros [OF c])
  then have tz: "length (takeWhile ?z (rev (ip @ fp))) = zt" by simp
  have "length (ip @ fp) - zt = zl + length ?s" unfolding assms(3) by simp
  then have "take (length (ip @ fp) - zt) (ip @ fp) = replicate zl (CHR ''0'') @ ?s"
    unfolding assms(3) by simp
  then have m: "nat_of_digits (take (length (ip @ fp) - zt) (ip @ fp)) = a"
    by (simp only: nat_of_digits_zeros nat_of_digits_show_nat)
  have e: "number_of neg ip fp ex =
     (let tz = length (takeWhile ?z (rev (ip @ fp)));
          m = int (nat_of_digits (take (length (ip @ fp) - tz) (ip @ fp)));
          e = ex - int (length fp) + int tz
      in if m = 0 then JNumber 0 0 else JNumber (if neg then - m else m) e)"
    unfolding number_of_def Let_def ..
  show ?thesis
    unfolding e tz Let_def m using assms(1) by simp
qed

lemma digits_append [simp]: "digits (xs @ ys) \<longleftrightarrow> digits xs \<and> digits ys"
  by (auto simp add: digits_def)

lemma digits_Nil [simp]: "digits []"
  by (simp add: digits_def)

lemma digits_0: "digits ''0''"
  by (simp add: digits_def)

lemma digits_zeros [simp]: "digits (replicate z (CHR ''0''))"
  by (simp add: digits_def)

lemma digits_take_drop: "digits s \<Longrightarrow> digits (take i s) \<and> digits (drop i s)"
  by (auto simp add: digits_def dest: in_set_takeD in_set_dropD)

lemma show_number_zero: "show_number 0 0 = ''0''"
  by code_simp

lemma parse_number_zero:
  assumes "stops rest"
  shows "parse_number (show_number 0 0 @ rest) = Some (JNumber 0 0, rest)"
proof -
  have "parse_number ((if False then ''-'' else []) @ ''0'' @ (if False then CHR ''.'' # [] else [])
         @ (if False then CHR ''e'' # (if False then CHR ''-'' else CHR ''+'') # [] else []) @ rest)
        = Some (number_of False ''0'' [] (if False then (if False then - int (nat_of_digits []) else int (nat_of_digits [])) else 0), rest)"
    by (rule parse_number_tokens) (use assms in \<open>simp_all add: digits_def\<close>)
  moreover have "number_of False ''0'' [] 0 = JNumber 0 0"
    by (simp add: number_of_def)
  ultimately show ?thesis by (simp add: show_number_zero)
qed

lemma parse_number_show_number_nonzero:
  assumes m: "m \<noteq> 0" and d: "\<not> 10 dvd m" and r: "stops rest"
  shows "parse_number (show_number m e @ rest) = Some (JNumber m e, rest)"
proof -
  define a where "a = nat \<bar>m\<bar>"
  define s where "s = show_nat a"
  define k where "k = int (length s)"
  define n where "n = k + e"
  define neg where "neg = (m < 0)"
  define sign where "sign = (if neg then ''-'' else [])"
  have a: "0 < a" "\<not> 10 dvd a" using m d by (simp_all add: a_def)
  have ma: "(if neg then - int a else int a) = m" by (simp add: neg_def a_def)
  have s_digits: "digits s" by (simp add: s_def show_nat_digits)
  have s_ne: "s \<noteq> []" by (simp add: s_def)
  have s_hd: "take 1 s \<noteq> ''0''" unfolding s_def using a(1) by (rule show_nat_hd)
  have k1: "1 \<le> k" using s_ne by (cases s) (simp_all add: k_def)
  have sn: "show_number m e = sign @
            (if k \<le> n \<and> n \<le> 21 then s @ replicate (nat (n - k)) CHR ''0''
             else if 0 < n \<and> n \<le> 21 then take (nat n) s @ ''.'' @ drop (nat n) s
             else if - 6 < n \<and> n \<le> 0 then ''0.'' @ replicate (nat (- n)) CHR ''0'' @ s
             else (if k = 1 then s else take 1 s @ ''.'' @ drop 1 s)
                  @ ''e'' @ (if 0 < n - 1 then ''+'' else ''-'') @ show_nat (nat \<bar>n - 1\<bar>))"
    unfolding show_number_def Let_def sign_def neg_def n_def k_def s_def a_def by simp
  consider (int) "k \<le> n" "n \<le> 21" | (frac) "0 < n" "n < k" "n \<le> 21"
    | (small) "- 6 < n" "n \<le> 0" | (exp) "21 < n \<or> n \<le> - 6"
    by linarith
  then show ?thesis
  proof cases
    case int
    let ?ip = "s @ replicate (nat (n - k)) CHR ''0''"
    have f: "show_number m e @ rest = (if neg then ''-'' else []) @ ?ip @ (if False then CHR ''.'' # [] else [])
         @ (if False then CHR ''e'' # (if False then CHR ''-'' else CHR ''+'') # [] else []) @ rest"
      using int by (simp add: sn sign_def)
    have t: "Suc 0 - length s = 0" using s_ne by (cases s) simp_all
    have "parse_number (show_number m e @ rest) = Some (number_of neg ?ip [] (if False then (if False then - int (nat_of_digits []) else int (nat_of_digits [])) else 0), rest)"
      unfolding f
      by (rule parse_number_tokens) (use s_digits s_ne s_hd r in \<open>simp_all add: t\<close>)
    then have "parse_number (show_number m e @ rest) = Some (number_of neg ?ip [] 0, rest)"
      by simp
    moreover have "number_of neg ?ip [] 0 = JNumber (if neg then - int a else int a) (0 - int (length ([]::string)) + int (nat (n - k)))"
      by (rule number_of_value [OF a, where zl = 0]) (simp add: s_def)
    ultimately show ?thesis using int by (simp add: ma n_def)
  next
    case frac
    let ?ip = "take (nat n) s" and ?fp = "drop (nat n) s"
    have f: "show_number m e @ rest = (if neg then ''-'' else []) @ ?ip @ (if True then CHR ''.'' # ?fp else [])
         @ (if False then CHR ''e'' # (if False then CHR ''-'' else CHR ''+'') # [] else []) @ rest"
      using frac by (simp add: sn sign_def)
    have ln: "nat n < length s" "0 < nat n" using frac by (simp_all add: k_def)
    then have ne: "?ip \<noteq> []" "?fp \<noteq> []" using s_ne by simp_all
    have t: "min (Suc 0) (nat n) = Suc 0" using ln by (simp add: min_def)
    have "parse_number (show_number m e @ rest) = Some (number_of neg ?ip ?fp (if False then (if False then - int (nat_of_digits []) else int (nat_of_digits [])) else 0), rest)"
      unfolding f
      by (rule parse_number_tokens)
         (use digits_take_drop [OF s_digits, of "nat n"] ne s_hd r in \<open>simp_all add: t\<close>)
    then have "parse_number (show_number m e @ rest) = Some (number_of neg ?ip ?fp 0, rest)"
      by simp
    moreover have "number_of neg ?ip ?fp 0 = JNumber (if neg then - int a else int a) (0 - int (length ?fp) + int 0)"
      by (rule number_of_value [OF a, where zl = 0]) (simp add: s_def)
    ultimately show ?thesis using frac ln by (simp add: ma n_def k_def)
  next
    case small
    let ?fp = "replicate (nat (- n)) CHR ''0'' @ s"
    have f: "show_number m e @ rest = (if neg then ''-'' else []) @ ''0'' @ (if True then CHR ''.'' # ?fp else [])
         @ (if False then CHR ''e'' # (if False then CHR ''-'' else CHR ''+'') # [] else []) @ rest"
      using small k1 by (simp add: sn sign_def)
    have "parse_number (show_number m e @ rest) = Some (number_of neg ''0'' ?fp (if False then (if False then - int (nat_of_digits []) else int (nat_of_digits [])) else 0), rest)"
      unfolding f
      by (rule parse_number_tokens) (use s_digits s_ne r in \<open>simp_all add: digits_0\<close>)
    then have "parse_number (show_number m e @ rest) = Some (number_of neg ''0'' ?fp 0, rest)"
      by simp
    moreover have "number_of neg ''0'' ?fp 0 = JNumber (if neg then - int a else int a) (0 - int (length ?fp) + int 0)"
      by (rule number_of_value [OF a, where zl = "Suc (nat (- n))"]) (simp add: s_def)
    ultimately show ?thesis using small by (simp add: ma n_def k_def)
  next
    case exp
    let ?ip = "take 1 s" and ?fp = "drop 1 s" and ?ep = "show_nat (nat \<bar>n - 1\<bar>)"
    let ?hf = "k \<noteq> 1" and ?eneg = "\<not> 0 < n - 1"
    have k_len: "k = 1 \<longleftrightarrow> length s = Suc 0" by (auto simp add: k_def)
    have f: "show_number m e @ rest = (if neg then ''-'' else []) @ ?ip @ (if ?hf then CHR ''.'' # ?fp else [])
         @ (if True then CHR ''e'' # (if ?eneg then CHR ''-'' else CHR ''+'') # ?ep else []) @ rest"
      using exp k1 by (auto simp add: sn sign_def k_len)
    have ne: "?ip \<noteq> []" using s_ne by simp
    have fp: "?hf \<longrightarrow> ?fp \<noteq> []" "\<not> ?hf \<longrightarrow> ?fp = []" using k1 by (auto simp add: k_def)
    have "parse_number (show_number m e @ rest)
        = Some (number_of neg ?ip ?fp (if True then (if ?eneg then - int (nat_of_digits ?ep) else int (nat_of_digits ?ep)) else 0), rest)"
      unfolding f
      by (rule parse_number_tokens)
         (use digits_take_drop [OF s_digits, of 1] ne s_hd r fp in \<open>simp_all add: show_nat_digits\<close>)
    moreover have "(if ?eneg then - int (nat_of_digits ?ep) else int (nat_of_digits ?ep)) = n - 1"
      by (simp add: nat_of_digits_show_nat)
    moreover have "number_of neg ?ip ?fp (n - 1) = JNumber (if neg then - int a else int a) ((n - 1) - int (length ?fp) + int 0)"
      by (rule number_of_value [OF a, where zl = 0]) (simp add: s_def)
    ultimately show ?thesis using k1 by (simp add: ma n_def k_def)
  qed
qed

lemma parse_number_show_number:
  assumes "canonical m e" and "stops rest"
  shows "parse_number (show_number m e @ rest) = Some (JNumber m e, rest)"
  using assms parse_number_zero parse_number_show_number_nonzero
  by (cases "m = 0") (simp_all add: canonical_def)

subsection \<open>Values\<close>

text \<open>An array or an object is read element by element; the depth \<open>need v\<close> is enough
  to read \<open>v\<close>, and twice the length of its text is at least that.\<close>

lemma delimited_stops: "delimited rest \<Longrightarrow> stops rest"
  by (cases rest) (auto simp add: delimited_def stops_def is_digit_def)

lemma delimited_skip_ws: "delimited rest \<Longrightarrow> skip_ws rest = rest"
  by (cases rest) (auto simp add: delimited_def skip_ws_def is_ws_def)

lemma delimited_simps [simp]:
  "delimited []" "delimited (CHR '','' # r)" "delimited (CHR '']'' # r)" "delimited (CHR ''}'' # r)"
  by (simp_all add: delimited_def)

lemma starts_not: 
  assumes "starts c"
  shows "\<not> is_ws c" "c \<noteq> CHR '']''" "c \<noteq> CHR ''}''"
  using assms by (auto simp add: starts_def is_ws_def is_digit_def dquote_def)

lemma show_nat_Cons: "\<exists>c cs. show_nat n = c # cs \<and> is_digit c"
proof -
  obtain c cs where "show_nat n = c # cs" by (cases "show_nat n") auto
  moreover from this show_nat_digits [of n] have "is_digit c" by (simp add: digits_def)
  ultimately show ?thesis by blast
qed

lemma show_number_Cons: "\<exists>c cs. show_number m e = c # cs \<and> (c = CHR ''-'' \<or> is_digit c)"
proof (cases "m < 0")
  case True
  then show ?thesis by (simp add: show_number_def Let_def)
next
  case False
  obtain c cs where s: "show_nat (nat \<bar>m\<bar>) = c # cs" "is_digit c"
    using show_nat_Cons by blast
  with False show ?thesis
    by (auto simp add: show_number_def Let_def take_Cons')
qed

lemma stringify_Cons: "\<exists>c cs. stringify v = c # cs \<and> starts c"
proof (cases v)
  case (JNumber m e)
  with show_number_Cons [of m e] show ?thesis by (auto simp add: starts_def)
qed (auto simp add: starts_def quote_def)

lemma skip_ws_stringify: "skip_ws (stringify v @ rest) = stringify v @ rest"
  using stringify_Cons [of v] by (auto simp add: skip_ws_def starts_not)

lemma stringify_not_Nil: "stringify v \<noteq> []"
  using stringify_Cons [of v] by auto

lemma parse_value_scalar:
  assumes "delimited rest"
  shows "parse_value (Suc n) (stringify JNull @ rest) = Some (JNull, rest)"
    and "parse_value (Suc n) (stringify (JBool b) @ rest) = Some (JBool b, rest)"
    and "parse_value (Suc n) (stringify (JString s) @ rest) = Some (JString s, rest)"
    by (simp_all add: skip_ws_def is_ws_def dquote_def quote_def
          parse_chars_quoted [unfolded dquote_def])

lemma parse_value_number:
  assumes "wf_json (JNumber m e)" and "delimited rest"
  shows "parse_value (Suc n) (stringify (JNumber m e) @ rest) = Some (JNumber m e, rest)"
proof -
  obtain c cs where s: "show_number m e = c # cs" and c: "c = CHR ''-'' \<or> is_digit c"
    using show_number_Cons by blast
  from c have n: "\<not> is_ws c" "c \<noteq> CHR ''[''" "c \<noteq> CHR ''{''" "c \<noteq> dquote"
      "c \<noteq> CHR ''n''" "c \<noteq> CHR ''t''" "c \<noteq> CHR ''f''"
    by (auto simp add: is_ws_def is_digit_def dquote_def)
  from assms have p: "parse_number (show_number m e @ rest) = Some (JNumber m e, rest)"
    by (intro parse_number_show_number delimited_stops) simp_all
  have "parse_value (Suc n) ((c # cs) @ rest) = parse_number ((c # cs) @ rest)"
    using n by (simp add: skip_ws_def)
  with p show ?thesis by (simp add: s)
qed

lemma update_fresh: "k \<notin> fst ` set acc \<Longrightarrow> AList.update k v acc = acc @ [(k, v)]"
  by (induction acc) auto

lemma parse_elements_commas:
  assumes "\<And>v n rest. v \<in> set vs \<Longrightarrow> need v \<le> n \<Longrightarrow> delimited rest \<Longrightarrow>
             parse_value n (stringify v @ rest) = Some (v, rest)"
    and "vs \<noteq> []" and "length vs + sum_list (map need vs) \<le> n"
  shows "parse_elements n acc (commas (map stringify vs) @ CHR '']'' # rest)
           = Some (JArray (acc @ vs), rest)"
  using assms
proof (induction vs arbitrary: n acc)
  case Nil
  then show ?case by simp
next
  case (Cons v vs)
  from Cons.prems(3) obtain n' where n: "n = Suc n'" by (cases n) auto
  show ?case
  proof (cases vs)
    case Nil
    from Cons.prems(3) n Nil have "need v \<le> n'" by simp
    then have "parse_value n' (stringify v @ CHR '']'' # rest) = Some (v, CHR '']'' # rest)"
      by (intro Cons.prems(1)) simp_all
    with Nil n show ?thesis by (simp add: skip_ws_def is_ws_def)
  next
    case (Cons w ws)
    from Cons.prems(3) n have le: "need v \<le> n'" "length vs + sum_list (map need vs) \<le> n'"
      by simp_all
    let ?r = "CHR '','' # commas (map stringify vs) @ CHR '']'' # rest"
    from le(1) have "parse_value n' (stringify v @ ?r) = Some (v, ?r)"
      by (intro Cons.prems(1)) simp_all
    moreover have "parse_elements n' (acc @ [v]) (commas (map stringify vs) @ CHR '']'' # rest)
        = Some (JArray ((acc @ [v]) @ vs), rest)"
      using Cons.prems(1) le(2) Cons by (intro Cons.IH) simp_all
    ultimately show ?thesis using Cons n by (simp add: skip_ws_def is_ws_def)
  qed
qed

lemma parse_members_commas:
  assumes "\<And>m n rest. m \<in> set ms \<Longrightarrow> need (snd m) \<le> n \<Longrightarrow> delimited rest \<Longrightarrow>
             parse_value n (stringify (snd m) @ rest) = Some (snd m, rest)"
    and "ms \<noteq> []" and "length ms + sum_list (map (\<lambda>m. need (snd m)) ms) \<le> n"
    and "distinct (map fst ms)" and "fst ` set acc \<inter> fst ` set ms = {}"
  shows "parse_members n acc (commas (map member_text ms) @ CHR ''}'' # rest)
           = Some (JObject (acc @ ms), rest)"
  using assms
proof (induction ms arbitrary: n acc)
  case Nil
  then show ?case by simp
next
  case (Cons m ms)
  obtain k v where m: "m = (k, v)" by (cases m)
  from Cons.prems(3) obtain n' where n: "n = Suc n'" by (cases n) auto
  from Cons.prems(5) m have u: "AList.update k v acc = acc @ [(k, v)]"
    by (intro update_fresh) auto
  have key: "\<And>r. parse_chars (tl (quote k) @ r) = Some (k, r)"
    by (rule parse_chars_quote)
  have q: "quote k = dquote # tl (quote k)" by (simp add: quote_def)
  show ?case
  proof (cases ms)
    case Nil
    from Cons.prems(3) n Nil m have "need v \<le> n'" by simp
    then have "parse_value n' (stringify (snd m) @ CHR ''}'' # rest) = Some (snd m, CHR ''}'' # rest)"
      by (intro Cons.prems(1)) (simp_all add: m)
    then have "parse_value n' (stringify v @ CHR ''}'' # rest) = Some (v, CHR ''}'' # rest)"
      by (simp add: m)
    moreover have "commas (map member_text (m # ms)) @ CHR ''}'' # rest
        = dquote # tl (quote k) @ CHR '':'' # stringify v @ CHR ''}'' # rest"
      using Nil m q by (simp add: member_text_def)
    ultimately show ?thesis using Nil n m u
      by (simp add: skip_ws_def is_ws_def dquote_def key [unfolded dquote_def])
  next
    case (Cons m' ms')
    from Cons.prems(3) n m have le: "need v \<le> n'"
        "length ms + sum_list (map (\<lambda>m. need (snd m)) ms) \<le> n'"
      by simp_all
    let ?r = "CHR '','' # commas (map member_text ms) @ CHR ''}'' # rest"
    from le(1) have "parse_value n' (stringify (snd m) @ ?r) = Some (snd m, ?r)"
      by (intro Cons.prems(1)) (simp_all add: m)
    then have pv: "parse_value n' (stringify v @ ?r) = Some (v, ?r)"
      by (simp add: m)
    have d: "distinct (map fst ms)" "fst ` set (acc @ [(k, v)]) \<inter> fst ` set ms = {}"
      using Cons.prems(4,5) m by auto
    have pm: "parse_members n' (acc @ [(k, v)]) (commas (map member_text ms) @ CHR ''}'' # rest)
        = Some (JObject ((acc @ [(k, v)]) @ ms), rest)"
      using Cons.prems(1) le(2) Cons d by (intro Cons.IH) simp_all
    have "commas (map member_text (m # ms)) @ CHR ''}'' # rest
        = dquote # tl (quote k) @ CHR '':'' # stringify v @ ?r"
      using Cons m q by (simp add: member_text_def)
    with pv pm show ?thesis using n m u
      by (simp add: skip_ws_def is_ws_def dquote_def key [unfolded dquote_def])
  qed
qed

lemma stringify_object:
  "stringify (JObject ms) = ''{'' @ commas (map member_text ms) @ ''}''"
proof -
  have "member_text = (\<lambda>m. quote (fst m) @ '':'' @ stringify (snd m))"
    by (rule ext) (simp add: member_text_def)
  then show ?thesis by simp
qed

theorem parse_value_stringify:
  assumes "wf_json v" and "need v \<le> n" and "delimited rest"
  shows "parse_value n (stringify v @ rest) = Some (v, rest)"
  using assms
proof (induction v arbitrary: n rest rule: wf_json.induct)
  case 1
  then obtain n' where "n = Suc n'" by (cases n) auto
  with 1 show ?case by (simp only: parse_value_scalar)
next
  case (2 b)
  then obtain n' where "n = Suc n'" by (cases n) auto
  with 2 show ?case by (simp only: parse_value_scalar)
next
  case (3 m e)
  then obtain n' where "n = Suc n'" by (cases n) auto
  with 3 show ?case by (simp only: parse_value_number)
next
  case (4 s)
  then obtain n' where "n = Suc n'" by (cases n) auto
  with 4 show ?case by (simp only: parse_value_scalar)
next
  case (5 vs)
  from "5.prems"(2) obtain n' where n: "n = Suc n'" by (cases n) auto
  show ?case
  proof (cases vs)
    case Nil
    with n show ?thesis by (simp add: skip_ws_def is_ws_def)
  next
    case (Cons w ws)
    obtain c cs where c: "stringify w = c # cs" "starts c" using stringify_Cons by blast
    have e: "parse_elements n' [] (commas (map stringify vs) @ CHR '']'' # rest)
        = Some (JArray ([] @ vs), rest)"
    proof (rule parse_elements_commas)
      fix v k r assume "v \<in> set vs" "need v \<le> k" "delimited r"
      with "5.prems"(1) show "parse_value k (stringify v @ r) = Some (v, r)"
        by (intro "5.IH") simp_all
    qed (use "5.prems"(2) n Cons in simp_all)
    obtain d ds where d: "commas (map stringify vs) = c # ds"
      using Cons c by (cases ws) simp_all
    then have "skip_ws (commas (map stringify vs) @ CHR '']'' # rest)
        = commas (map stringify vs) @ CHR '']'' # rest" "c \<noteq> CHR '']''"
      using starts_not [OF c(2)] by (simp_all add: skip_ws_def)
    with e n d show ?thesis by (simp add: skip_ws_def is_ws_def)
  qed
next
  case (6 ms)
  from "6.prems"(2) obtain n' where n: "n = Suc n'" by (cases n) auto
  show ?case
  proof (cases ms)
    case Nil
    with n show ?thesis by (simp add: skip_ws_def is_ws_def)
  next
    case (Cons w ws)
    have e: "parse_members n' [] (commas (map member_text ms) @ CHR ''}'' # rest)
        = Some (JObject ([] @ ms), rest)"
    proof (rule parse_members_commas)
      fix m k r assume "m \<in> set ms" "need (snd m) \<le> k" "delimited r"
      with "6.prems"(1) show "parse_value k (stringify (snd m) @ r) = Some (snd m, r)"
        by (intro "6.IH") simp_all
    qed (use "6.prems"(1,2) n Cons in simp_all)
    obtain ds where d: "commas (map member_text ms) = dquote # ds"
      using Cons by (cases ws) (simp_all add: member_text_def quote_def)
    then have "skip_ws (commas (map member_text ms) @ CHR ''}'' # rest)
        = commas (map member_text ms) @ CHR ''}'' # rest" "dquote \<noteq> CHR ''}''"
      by (simp_all add: skip_ws_def is_ws_def dquote_def)
    with e n d show ?thesis
      by (simp add: stringify_object skip_ws_def is_ws_def del: stringify.simps)
  qed
qed

lemma length_commas: "sum_list (map length xs) + length xs \<le> Suc (length (commas xs))"
  by (induction xs rule: commas.induct) simp_all

lemma need_le: "need v \<le> 2 * length (stringify v)"
proof (induction v rule: wf_json.induct)
  case (5 vs)
  have "sum_list (map need vs) \<le> sum_list (map (\<lambda>v. 2 * length (stringify v)) vs)"
    by (rule sum_list_mono) (rule "5.IH")
  also have "\<dots> = 2 * sum_list (map length (map stringify vs))"
    by (simp add: sum_list_const_mult comp_def)
  finally have "sum_list (map need vs) \<le> 2 * sum_list (map length (map stringify vs))" .
  with length_commas [of "map stringify vs"] show ?case by simp
next
  case (6 ms)
  have "sum_list (map (\<lambda>m. need (snd m)) ms) \<le> sum_list (map (\<lambda>m. 2 * length (member_text m)) ms)"
  proof (rule sum_list_mono)
    fix m assume "m \<in> set ms"
    then have "need (snd m) \<le> 2 * length (stringify (snd m))" by (rule "6.IH")
    then show "need (snd m) \<le> 2 * length (member_text m)" by (simp add: member_text_def)
  qed
  also have "\<dots> = 2 * sum_list (map length (map member_text ms))"
    by (simp add: sum_list_const_mult comp_def)
  finally have "sum_list (map (\<lambda>m. need (snd m)) ms) \<le> 2 * sum_list (map length (map member_text ms))" .
  with length_commas [of "map member_text ms"] show ?case
    by (simp add: stringify_object del: stringify.simps)
next
  case (3 m e)
  from stringify_not_Nil [of "JNumber m e"] have "show_number m e \<noteq> []" by simp
  then have "Suc 0 \<le> length (show_number m e)" by (cases "show_number m e") simp_all
  then show ?case by simp
qed (simp_all add: quote_def)

theorem parse_json_stringify:
  assumes "wf_json v"
  shows "parse_json (stringify v) = Some v"
proof -
  have "need v \<le> 2 * length (stringify v) + 2" using need_le [of v] by simp
  with assms have "parse_value (2 * length (stringify v) + 2) (stringify v @ []) = Some (v, [])"
    by (intro parse_value_stringify) simp_all
  then show ?thesis by (simp add: parse_json_def skip_ws_def)
qed

theorem json_values_serializable:
  assumes "wf_json v"
  shows "json_serializable (browser m) v (stringify v)"
  using assms
  by (simp add: json_serializable_def browser_def JSON_stringify_json_def JSON_parse_json_def
        parse_json_stringify stringify_not_Nil del: stringify.simps)

section \<open>The claims on the local cache helper\<close>

lemma browser_available: "can_read (browser m)" "can_write (browser m) k s"
  by (simp_all add: can_read_def can_write_def browser_def)

lemma write_then_read_any:
  assumes "can_read h" and "can_write h k s" and "json_serializable h v s"
  shows "fst (getLocalStorage k fallback (snd (setLocalStorage k v h))) = Inr v"
proof -
  let ?h1 = "h\<lparr>items := (items h)(k \<mapsto> s)\<rparr>"
  from assms have w: "setLocalStorage k v h = (Inr (), ?h1)"
    by (simp add: setLocalStorage_writes json_serializable_def)
  from assms have "can_read ?h1" "items ?h1 k = Some s" "s \<noteq> []" "JSON_parse ?h1 s = Inr v"
    by (simp_all add: can_read_def json_serializable_def)
  then have "getLocalStorage k fallback ?h1 = (Inr v, ?h1)"
    by (simp add: getLocalStorage_stored)
  with w show ?thesis by simp
qed

text \<open>
  Claim C1. For every key \<open>k\<close> and every JSON-serializable value \<open>v\<close>, reading \<open>k\<close> with
  \<open>getLocalStorage\<close> immediately after writing \<open>v\<close> under \<open>k\<close> with \<open>setLocalStorage\<close>
  returns \<open>v\<close>, whatever the fallback, when persistent storage is available. This holds
  in every host, for every type of value, and in the browser with the JSON above for
  every well-formed JSON value.
\<close>

theorem write_then_read:
  "(can_read h \<and> can_write h k s \<and> json_serializable h v s \<longrightarrow>
      fst (getLocalStorage k fallback (snd (setLocalStorage k v h))) = Inr v)
   \<and> (wf_json j \<longrightarrow>
      fst (getLocalStorage k fb (snd (setLocalStorage k j (browser m)))) = Inr j)"
proof (intro conjI impI)
  assume "can_read h \<and> can_write h k s \<and> json_serializable h v s"
  then have "can_read h" and "can_write h k s" and "json_serializable h v s"
    by simp_all
  then show "fst (getLocalStorage k fallback (snd (setLocalStorage k v h))) = Inr v"
    by (rule write_then_read_any)
next
  assume "wf_json j"
  then have "json_serializable (browser m) j (stringify j)"
    by (rule json_values_serializable)
  then show "fst (getLocalStorage k fb (snd (setLocalStorage k j (browser m)))) = Inr j"
    by (intro write_then_read_any browser_available)
qed

theorem write_then_read_witness:
  "can_read (browser Map.empty) \<and> can_write (browser Map.empty) ''theme'' (stringify (JString ''dark''))
   \<and> json_serializable (browser Map.empty) (JString ''dark'') (stringify (JString ''dark''))
   \<and> fst (getLocalStorage ''theme'' (JString ''light'')
            (snd (setLocalStorage ''theme'' (JString ''dark'') (browser Map.empty)))) = Inr (JString ''dark'')
   \<and> wf_json (JArray [JNumber 15 (- 1), JObject [(''mode'', JString ''dark'')]])
   \<and> fst (getLocalStorage ''prefs'' JNull
            (snd (setLocalStorage ''prefs'' (JArray [JNumber 15 (- 1), JObject [(''mode'', JString ''dark'')]])
                   (browser Map.empty))))
       = Inr (JArray [JNumber 15 (- 1), JObject [(''mode'', JString ''dark'')]])"
proof -
  let ?j = "JArray [JNumber 15 (- 1), JObject [(''mode'', JString ''dark'')]]"
  have r: "can_read (browser Map.empty)" by code_simp
  have w: "can_write (browser Map.empty) ''theme'' (stringify (JString ''dark''))"
    by (simp add: can_write_def browser_def)
  have j: "json_serializable (browser Map.empty) (JString ''dark'') (stringify (JString ''dark''))"
    by code_simp
  have f: "wf_json ?j" by (simp add: canonical_def)
  from write_then_read [where h = "browser Map.empty" and k = "''theme''"
      and s = "stringify (JString ''dark'')" and v = "JString ''dark''"
      and fallback = "JString ''light''" and j = ?j and fb = JNull and m = Map.empty] r w j
  have a: "fst (getLocalStorage ''theme'' (JString ''light'')
            (snd (setLocalStorage ''theme'' (JString ''dark'') (browser Map.empty)))) = Inr (JString ''dark'')"
    by (simp only: simp_thms)
  from write_then_read [where h = "browser Map.empty" and k = "''prefs''"
      and s = "stringify (JString ''dark'')" and v = "JString ''dark''"
      and fallback = "JString ''light''" and j = ?j and fb = JNull and m = Map.empty] f
  have b: "fst (getLocalStorage ''prefs'' JNull (snd (setLocalStorage ''prefs'' ?j (browser Map.empty))))
      = Inr ?j"
    by (simp only: simp_thms)
  from r w j a f b show ?thesis by (simp only: simp_thms)
qed

text \<open>
  Claim C2, as the specification states it: when the string stored under \<open>k\<close> is present
  and fails to parse, \<open>getLocalStorage\<close> returns the fallback and writes the fallback
  back under \<open>k\<close>. The second half fails: with \<^verbatim>\<open>{oops\<close> stored under \<^verbatim>\<open>theme\<close>, the read
  returns the fallback and \<^verbatim>\<open>{oops\<close> is still what is stored, not the text of the fallback.
\<close>

theorem corrupted_read_counterexample:
  "can_read (browser [''theme'' \<mapsto> ''{oops'']) \<and>
   corrupted (browser [''theme'' \<mapsto> ''{oops'']) ''theme'' ''{oops'' SyntaxError \<and>
   fst (getLocalStorage ''theme'' (JString ''light'') (browser [''theme'' \<mapsto> ''{oops''])) = Inr (JString ''light'') \<and>
   items (snd (getLocalStorage ''theme'' (JString ''light'') (browser [''theme'' \<mapsto> ''{oops'']))) ''theme''
     = Some ''{oops'' \<and>
   JSON_stringify (browser [''theme'' \<mapsto> ''{oops'']) (JString ''light'') \<noteq> Inr (Some ''{oops'')"
  by code_simp

text \<open>
  Claim C2, amended. When the string stored under \<open>k\<close> is present and fails to parse,
  \<open>getLocalStorage\<close> returns the fallback, does not throw, prints the error on the
  console and leaves the storage as it is: the handler of the \<^verbatim>\<open>catch\<close> does not write.
\<close>

theorem corrupted_read_falls_back:
  assumes "can_read h" and "corrupted h k s e"
  shows "getLocalStorage k fallback h = (Inr fallback, h\<lparr>console := console h @ [e]\<rparr>)
       \<and> items (snd (getLocalStorage k fallback h)) = items h"
  using assms by (simp add: getLocalStorage_stored corrupted_def)

theorem corrupted_read_falls_back_witness:
  "can_read (browser [''theme'' \<mapsto> ''{oops'']) \<and>
   corrupted (browser [''theme'' \<mapsto> ''{oops'']) ''theme'' ''{oops'' SyntaxError \<and>
   getLocalStorage ''theme'' (JString ''light'') (browser [''theme'' \<mapsto> ''{oops''])
     = (Inr (JString ''light''),
        (browser [''theme'' \<mapsto> ''{oops''])\<lparr>console := console (browser [''theme'' \<mapsto> ''{oops'']) @ [SyntaxError]\<rparr>)"
proof -
  have r: "can_read (browser [''theme'' \<mapsto> ''{oops''])" by code_simp
  have c: "corrupted (browser [''theme'' \<mapsto> ''{oops'']) ''theme'' ''{oops'' SyntaxError"
    by code_simp
  from corrupted_read_falls_back [OF r c] r c show ?thesis by simp
qed

lemma first_read_seeds_any:
  assumes "can_read h" and "can_write h k s" and "items h k = None"
    and "json_serializable h fallback s"
  shows "fst (getLocalStorage k fallback h) = Inr fallback
       \<and> items (snd (getLocalStorage k fallback h)) k = Some s
       \<and> fst (getLocalStorage k other (snd (getLocalStorage k fallback h))) = Inr fallback"
proof -
  let ?h1 = "h\<lparr>items := (items h)(k \<mapsto> s)\<rparr>"
  from assms have g: "getLocalStorage k fallback h = (Inr fallback, ?h1)"
    by (simp add: getLocalStorage_seeds setLocalStorage_writes json_serializable_def)
  from assms have "can_read ?h1" "items ?h1 k = Some s" "s \<noteq> []" "JSON_parse ?h1 s = Inr fallback"
    by (simp_all add: can_read_def json_serializable_def)
  then have "getLocalStorage k other ?h1 = (Inr fallback, ?h1)"
    by (simp add: getLocalStorage_stored)
  with g show ?thesis by simp
qed

text \<open>
  Claim C3, as the specification states it: for a key \<open>k\<close> never written, with storage
  available, \<open>getLocalStorage\<close> returns the fallback and stores it, so that a following
  read with another fallback still returns the first one. This fails for a fallback that
  is not JSON-serializable. With \<^verbatim>\<open>undefined\<close> as the fallback and nothing stored under
  \<^verbatim>\<open>theme\<close>, the first read returns \<^verbatim>\<open>undefined\<close> and stores the text \<^verbatim>\<open>undefined\<close>, which
  is not a JSON text: the second read, with the fallback \<^verbatim>\<open>"dark"\<close>, returns \<^verbatim>\<open>"dark"\<close>.
\<close>

theorem first_read_undefined_counterexample:
  "can_read (page Map.empty) \<and>
   can_write (page Map.empty) ''theme'' ''undefined'' \<and>
   items (page Map.empty) ''theme'' = None \<and>
   fst (getLocalStorage ''theme'' JSUndefined (page Map.empty)) = Inr JSUndefined \<and>
   items (snd (getLocalStorage ''theme'' JSUndefined (page Map.empty))) ''theme'' = Some ''undefined'' \<and>
   fst (getLocalStorage ''theme'' (JSValue (JString ''dark''))
         (snd (getLocalStorage ''theme'' JSUndefined (page Map.empty))))
     = Inr (JSValue (JString ''dark'')) \<and>
   fst (getLocalStorage ''theme'' (JSValue (JString ''dark''))
         (snd (getLocalStorage ''theme'' JSUndefined (page Map.empty))))
     \<noteq> Inr JSUndefined"
  by code_simp

text \<open>
  Claim C3, amended. For a key \<open>k\<close> never written and a JSON-serializable fallback,
  \<open>getLocalStorage\<close> returns the fallback and stores it under \<open>k\<close>, so that a following
  read of \<open>k\<close> with any other fallback still returns the first one, when persistent
  storage is available. This holds in every host, and in the browser with the JSON above
  for every well-formed JSON value as the fallback.
\<close>

theorem first_read_seeds:
  "(can_read h \<and> can_write h k s \<and> items h k = None \<and> json_serializable h fallback s \<longrightarrow>
      fst (getLocalStorage k fallback h) = Inr fallback
      \<and> items (snd (getLocalStorage k fallback h)) k = Some s
      \<and> fst (getLocalStorage k other (snd (getLocalStorage k fallback h))) = Inr fallback)
   \<and> (wf_json j \<and> m k = None \<longrightarrow>
      fst (getLocalStorage k j (browser m)) = Inr j
      \<and> items (snd (getLocalStorage k j (browser m))) k = Some (stringify j)
      \<and> fst (getLocalStorage k j' (snd (getLocalStorage k j (browser m)))) = Inr j)"
proof (intro conjI impI)
  assume "can_read h \<and> can_write h k s \<and> items h k = None \<and> json_serializable h fallback s"
  then have "can_read h" and "can_write h k s" and "items h k = None"
    and "json_serializable h fallback s"
    by simp_all
  then have "fst (getLocalStorage k fallback h) = Inr fallback
       \<and> items (snd (getLocalStorage k fallback h)) k = Some s
       \<and> fst (getLocalStorage k other (snd (getLocalStorage k fallback h))) = Inr fallback"
    by (rule first_read_seeds_any)
  then show "fst (getLocalStorage k fallback h) = Inr fallback"
    and "items (snd (getLocalStorage k fallback h)) k = Some s"
    and "fst (getLocalStorage k other (snd (getLocalStorage k fallback h))) = Inr fallback"
    by simp_all
next
  assume a: "wf_json j \<and> m k = None"
  then have "json_serializable (browser m) j (stringify j)"
    by (intro json_values_serializable) simp
  moreover from a have "items (browser m) k = None" by (simp add: browser_def)
  ultimately have "fst (getLocalStorage k j (browser m)) = Inr j
       \<and> items (snd (getLocalStorage k j (browser m))) k = Some (stringify j)
       \<and> fst (getLocalStorage k j' (snd (getLocalStorage k j (browser m)))) = Inr j"
    by (intro first_read_seeds_any browser_available)
  then show "fst (getLocalStorage k j (browser m)) = Inr j"
    and "items (snd (getLocalStorage k j (browser m))) k = Some (stringify j)"
    and "fst (getLocalStorage k j' (snd (getLocalStorage k j (browser m)))) = Inr j"
    by simp_all
qed

theorem first_read_seeds_witness:
  "can_read (browser Map.empty) \<and>
   can_write (browser Map.empty) ''theme'' (stringify (JString ''light'')) \<and>
   items (browser Map.empty) ''theme'' = None \<and>
   json_serializable (browser Map.empty) (JString ''light'') (stringify (JString ''light'')) \<and>
   wf_json (JString ''light'') \<and> (Map.empty :: string \<rightharpoonup> string) ''theme'' = None \<and>
   fst (getLocalStorage ''theme'' (JString ''light'') (browser Map.empty)) = Inr (JString ''light'') \<and>
   items (snd (getLocalStorage ''theme'' (JString ''light'') (browser Map.empty))) ''theme''
     = Some (stringify (JString ''light'')) \<and>
   fst (getLocalStorage ''theme'' (JString ''dark'')
         (snd (getLocalStorage ''theme'' (JString ''light'') (browser Map.empty)))) = Inr (JString ''light'')"
proof -
  have r: "can_read (browser Map.empty)" by code_simp
  have w: "can_write (browser Map.empty) ''theme'' (stringify (JString ''light''))"
    by (simp add: can_write_def browser_def)
  have n: "items (browser Map.empty) ''theme'' = None" by code_simp
  have j: "json_serializable (browser Map.empty) (JString ''light'') (stringify (JString ''light''))"
    by code_simp
  have f: "wf_json (JString ''light'')" by simp
  have e: "(Map.empty :: string \<rightharpoonup> string) ''theme'' = None" by simp
  from first_read_seeds [where h = "browser Map.empty" and k = "''theme''"
      and s = "stringify (JString ''light'')" and fallback = "JString ''light''"
      and other = "JString ''dark''" and j = "JString ''light''" and m = Map.empty
      and j' = "JString ''dark''"] r w n j
  have a: "fst (getLocalStorage ''theme'' (JString ''light'') (browser Map.empty)) = Inr (JString ''light'') \<and>
     items (snd (getLocalStorage ''theme'' (JString ''light'') (browser Map.empty))) ''theme''
       = Some (stringify (JString ''light'')) \<and>
     fst (getLocalStorage ''theme'' (JString ''dark'')
           (snd (getLocalStorage ''theme'' (JString ''light'') (browser Map.empty)))) = Inr (JString ''light'')"
    by (simp only: simp_thms)
  from r w n j f e a show ?thesis by (simp only: simp_thms)
qed

text \<open>
  Claim C4. For every key and value, in every host, \<open>setLocalStorage\<close> and
  \<open>getLocalStorage\<close> never throw. When storage is unavailable to the write, the write
  changes no stored string; when it is unavailable to the read, the read returns the
  fallback and changes no stored string. When the global is \<^verbatim>\<open>undefined\<close>, neither call
  changes the host at all.
\<close>

theorem unavailable_storage:
  "fst (setLocalStorage k v h) = Inr ()
   \<and> (\<exists>x. fst (getLocalStorage k fallback h) = Inr x)
   \<and> (write_unavailable h k v \<longrightarrow> items (snd (setLocalStorage k v h)) = items h)
   \<and> (read_unavailable h \<longrightarrow>
        fst (getLocalStorage k fallback h) = Inr fallback
        \<and> items (snd (getLocalStorage k fallback h)) = items h)
   \<and> (localStorage h = Undefined \<longrightarrow>
        setLocalStorage k v h = (Inr (), h) \<and> getLocalStorage k fallback h = (Inr fallback, h))"
proof (intro conjI impI)
  show "fst (setLocalStorage k v h) = Inr ()" by (rule setLocalStorage_never_throws)
  show "\<exists>x. fst (getLocalStorage k fallback h) = Inr x" by (rule getLocalStorage_never_throws)
next
  assume "write_unavailable h k v"
  then show "items (snd (setLocalStorage k v h)) = items h"
    by (auto simp add: helper_defs write_unavailable_def split: sum.splits ls_global.splits option.splits)
next
  assume u: "read_unavailable h"
  then show "fst (getLocalStorage k fallback h) = Inr fallback"
    by (auto simp add: helper_defs read_unavailable_def split: sum.splits ls_global.splits option.splits)
  from u show "items (snd (getLocalStorage k fallback h)) = items h"
    by (auto simp add: helper_defs read_unavailable_def split: sum.splits ls_global.splits option.splits)
next
  assume u: "localStorage h = Undefined"
  then show "setLocalStorage k v h = (Inr (), h)" by (simp add: helper_defs)
  from u show "getLocalStorage k fallback h = (Inr fallback, h)" by (simp add: helper_defs)
qed

theorem unavailable_storage_witness:
  "write_unavailable (blocked_browser [''theme'' \<mapsto> ''true'']) ''theme'' (JBool False) \<and>
   read_unavailable (blocked_browser [''theme'' \<mapsto> ''true'']) \<and>
   read_unavailable (worker [''theme'' \<mapsto> ''true'']) \<and>
   localStorage server = Undefined \<and>
   fst (setLocalStorage ''theme'' (JBool False) (blocked_browser [''theme'' \<mapsto> ''true''])) = Inr () \<and>
   items (snd (setLocalStorage ''theme'' (JBool False) (blocked_browser [''theme'' \<mapsto> ''true''])))
     = [''theme'' \<mapsto> ''true''] \<and>
   fst (getLocalStorage ''theme'' (JBool False) (blocked_browser [''theme'' \<mapsto> ''true''])) = Inr (JBool False) \<and>
   fst (getLocalStorage ''theme'' (JBool False) (worker [''theme'' \<mapsto> ''true''])) = Inr (JBool False) \<and>
   setLocalStorage ''theme'' (JBool False) server = (Inr (), server) \<and>
   getLocalStorage ''theme'' (JBool False) server = (Inr (JBool False), server)"
proof -
  let ?b = "blocked_browser [''theme'' \<mapsto> ''true'']"
  let ?w = "worker [''theme'' \<mapsto> ''true'']"
  have w: "write_unavailable ?b ''theme'' (JBool False)" by code_simp
  have r: "read_unavailable ?b" by code_simp
  have r': "read_unavailable ?w" by code_simp
  have u: "localStorage server = Undefined" by code_simp
  have i: "items ?b = [''theme'' \<mapsto> ''true'']" by (simp add: blocked_browser_def browser_def)
  from unavailable_storage [of "''theme''" "JBool False" ?b "JBool False"]
       unavailable_storage [of "''theme''" "JBool False" ?w "JBool False"]
       unavailable_storage [of "''theme''" "JBool False" server "JBool False"] w r r' u i
  show ?thesis by simp
qed

text \<open>
  Claim C9. When the string stored under \<open>k\<close> is the empty string, \<open>getLocalStorage\<close>
  treats the key as absent: it does not parse the stored string, it calls
  \<open>setLocalStorage\<close> with the fallback and returns the fallback. When that write goes
  through, the text of the fallback is stored under \<open>k\<close>, and call and outcome are those
  of the host where \<open>k\<close> is not stored at all.
\<close>

theorem empty_string_is_absent:
  assumes "can_read h" and "items h k = Some []"
  shows "getLocalStorage k fallback h = (Inr fallback, snd (setLocalStorage k fallback h))
       \<and> (can_write h k s \<and> JSON_stringify h fallback = Inr (Some s) \<longrightarrow>
            getLocalStorage k fallback h = (Inr fallback, h\<lparr>items := (items h)(k \<mapsto> s)\<rparr>)
            \<and> getLocalStorage k fallback h
                 = getLocalStorage k fallback (h\<lparr>items := (items h)(k := None)\<rparr>))"
proof (intro conjI impI)
  let ?h0 = "h\<lparr>items := (items h)(k := None)\<rparr>"
  from assms show g: "getLocalStorage k fallback h = (Inr fallback, snd (setLocalStorage k fallback h))"
    by (simp add: getLocalStorage_seeds)
  assume "can_write h k s \<and> JSON_stringify h fallback = Inr (Some s)"
  then have cw: "can_write h k s" and js: "JSON_stringify h fallback = Inr (Some s)"
    by simp_all
  then have w: "setLocalStorage k fallback h = (Inr (), h\<lparr>items := (items h)(k \<mapsto> s)\<rparr>)"
    by (simp add: setLocalStorage_writes)
  show r: "getLocalStorage k fallback h = (Inr fallback, h\<lparr>items := (items h)(k \<mapsto> s)\<rparr>)"
    unfolding g w by simp
  from assms cw js have "can_read ?h0" "items ?h0 k = None" "can_write ?h0 k s"
      "JSON_stringify ?h0 fallback = Inr (Some s)"
    by (simp_all add: can_read_def can_write_def)
  then have "getLocalStorage k fallback ?h0 = (Inr fallback, ?h0\<lparr>items := (items ?h0)(k \<mapsto> s)\<rparr>)"
    by (simp add: getLocalStorage_seeds setLocalStorage_writes)
  then have "getLocalStorage k fallback ?h0 = (Inr fallback, h\<lparr>items := (items h)(k \<mapsto> s)\<rparr>)"
    by simp
  then show "getLocalStorage k fallback h = getLocalStorage k fallback ?h0"
    unfolding r by simp
qed

theorem empty_string_is_absent_witness:
  "can_read (browser [''theme'' \<mapsto> []]) \<and> items (browser [''theme'' \<mapsto> []]) ''theme'' = Some [] \<and>
   can_write (browser [''theme'' \<mapsto> []]) ''theme'' ''true'' \<and>
   JSON_stringify (browser [''theme'' \<mapsto> []]) (JBool True) = Inr (Some ''true'') \<and>
   getLocalStorage ''theme'' (JBool True) (browser [''theme'' \<mapsto> []])
     = (Inr (JBool True), browser [''theme'' \<mapsto> ''true''])"
proof -
  let ?b = "browser [''theme'' \<mapsto> []]"
  have r: "can_read ?b" by code_simp
  have e: "items ?b ''theme'' = Some []" by code_simp
  have w: "can_write ?b ''theme'' ''true''" by code_simp
  have j: "JSON_stringify ?b (JBool True) = Inr (Some ''true'')" by code_simp
  have u: "?b\<lparr>items := (items ?b)(''theme'' \<mapsto> ''true'')\<rparr> = browser [''theme'' \<mapsto> ''true'']"
    by (simp add: browser_def)
  from empty_string_is_absent [OF r e, of "JBool True" "''true''"] w j have
    "getLocalStorage ''theme'' (JBool True) ?b
       = (Inr (JBool True), ?b\<lparr>items := (items ?b)(''theme'' \<mapsto> ''true'')\<rparr>)"
    by blast
  with r e w j u show ?thesis by simp
qed

text \<open>
  Claim C10. \<open>setLocalStorage\<close> on \<open>k\<close> and \<open>getLocalStorage\<close> on \<open>k\<close> leave the string
  stored under any other key as it is.
\<close>

theorem other_keys_untouched:
  assumes "k' \<noteq> k"
  shows "items (snd (setLocalStorage k v h)) k' = items h k'
       \<and> items (snd (getLocalStorage k fallback h)) k' = items h k'"
  using assms by (simp add: setLocalStorage_frame getLocalStorage_frame)

theorem other_keys_untouched_witness:
  "''lang'' \<noteq> ''theme'' \<and>
   items (snd (setLocalStorage ''theme'' (JBool True) (browser [''lang'' \<mapsto> ''1'']))) ''lang'' = Some ''1'' \<and>
   items (snd (getLocalStorage ''theme'' (JBool True) (browser [''lang'' \<mapsto> ''1'']))) ''lang'' = Some ''1''"
proof -
  have d: "''lang'' \<noteq> ''theme''" by simp
  have i: "items (browser [''lang'' \<mapsto> ''1'']) ''lang'' = Some ''1''" by (simp add: browser_def)
  from other_keys_untouched [OF d, of "JBool True" "browser [''lang'' \<mapsto> ''1'']" "JBool True"] d i
  show ?thesis by simp
qed

section \<open>The claims on the content loader\<close>

lemma set_generated_index: "set (generated_index ts files) = {f \<in> set files. in_index f}"
  by (simp add: generated_index_def)

lemma filter_eq_replicate:
  assumes "\<And>x. x \<in> set xs \<Longrightarrow> P x \<Longrightarrow> x = k"
  shows "filter P xs = replicate (length (filter P xs)) k"
  using assms by (induction xs) auto

text \<open>Two lists with the same elements, sorted by a key that tells the elements apart,
  are the same list.\<close>

lemma sort_key_unique:
  assumes m: "mset ys = mset xs" and inj: "inj_on f (set xs)"
  shows "sort_key f ys = sort_key f xs"
proof (rule properties_for_sort_key)
  show "mset (sort_key f xs) = mset ys" using m by simp
  show "sorted (map f (sort_key f xs))" by simp
  fix k assume "k \<in> set (sort_key f xs)"
  then have k: "k \<in> set xs" by simp
  let ?P = "\<lambda>x. f k = f x"
  have sx: "set ys = set xs" using m by (metis set_mset_mset)
  have a: "filter ?P ys = replicate (length (filter ?P ys)) k"
    by (rule filter_eq_replicate) (use inj k sx in \<open>auto dest: inj_onD\<close>)
  have b: "filter ?P (sort_key f xs) = replicate (length (filter ?P (sort_key f xs))) k"
    by (rule filter_eq_replicate) (use inj k in \<open>auto dest: inj_onD\<close>)
  have "mset (filter ?P ys) = mset (filter ?P (sort_key f xs))"
    using m by simp
  then have "length (filter ?P ys) = length (filter ?P (sort_key f xs))"
    by (metis size_mset)
  with a b show "filter ?P (sort_key f xs) = filter ?P ys" by metis
qed

lemma post_fields: "listed post" "published post" "date post = ''August 21 2022''"
  by (simp_all add: post_def)

lemma days_values: "days ''August 21 2022'' = 20220821" "days ''May 1 2021'' = 20210501"
  by (simp_all add: days_def)

text \<open>
  Claim C5. An article with \<open>published = false\<close> is in no generated index, under any
  route, and no route resolves to it: its own route resolves to not-found.
\<close>

theorem unpublished_excluded:
  assumes "\<not> published a"
  shows "(p, a) \<notin> set (generated_index ts files)
       \<and> resolve_route files p \<noteq> Page a
       \<and> (map_of files p = Some a \<longrightarrow> resolve_route files p = NotFound)"
  using assms
  by (auto simp add: set_generated_index in_index_def resolve_route_def split: option.splits)

theorem unpublished_excluded_witness:
  "\<not> published (post\<lparr>published := False\<rparr>) \<and>
   generated_index days [(''draft'', post\<lparr>published := False\<rparr>), (''suspense'', post)]
     = [(''suspense'', post)] \<and>
   map_of [(''draft'', post\<lparr>published := False\<rparr>), (''suspense'', post)] ''draft''
     = Some (post\<lparr>published := False\<rparr>) \<and>
   resolve_route [(''draft'', post\<lparr>published := False\<rparr>), (''suspense'', post)] ''draft'' = NotFound \<and>
   resolve_route [(''draft'', post\<lparr>published := False\<rparr>), (''suspense'', post)] ''suspense'' = Page post"
proof -
  let ?files = "[(''draft'', post\<lparr>published := False\<rparr>), (''suspense'', post)]"
  have u: "\<not> published (post\<lparr>published := False\<rparr>)" by simp
  have m: "map_of ?files ''draft'' = Some (post\<lparr>published := False\<rparr>)" by simp
  have i: "generated_index days ?files = [(''suspense'', post)]"
    by (simp add: generated_index_def in_index_def post_def)
  have r: "resolve_route ?files ''suspense'' = Page post"
    by (simp add: resolve_route_def post_def)
  from unpublished_excluded [OF u, of "''draft''" days ?files] u m i r show ?thesis by simp
qed

text \<open>
  Claim C6. A generated index contains exactly the articles with \<open>listed = true\<close> and
  \<open>published = true\<close>, each as often as the input has it, sorted by date in descending
  order. The order in which the files were read does not matter: two inputs with the same
  files give indexes with the same entries, and the same index when the listed articles
  have distinct dates.
\<close>

theorem index_listing:
  "mset (generated_index ts files)
     = filter_mset (\<lambda>f. listed (snd f) \<and> published (snd f)) (mset files)
   \<and> sorted_wrt (\<lambda>f g. ts (date (snd g)) \<le> ts (date (snd f))) (generated_index ts files)
   \<and> (mset files' = mset files \<longrightarrow>
        mset (generated_index ts files') = mset (generated_index ts files))
   \<and> (mset files' = mset files
        \<and> inj_on (\<lambda>f. ts (date (snd f))) {f \<in> set files. listed (snd f) \<and> published (snd f)} \<longrightarrow>
        generated_index ts files' = generated_index ts files)"
proof (intro conjI impI)
  show c: "mset (generated_index ts files)
      = filter_mset (\<lambda>f. listed (snd f) \<and> published (snd f)) (mset files)"
    by (simp add: generated_index_def in_index_def)
  have "sorted (map (\<lambda>f. - ts (date (snd f))) (generated_index ts files))"
    by (simp add: generated_index_def)
  then show "sorted_wrt (\<lambda>f g. ts (date (snd g)) \<le> ts (date (snd f))) (generated_index ts files)"
    by (simp add: sorted_map)
next
  assume "mset files' = mset files"
  then show "mset (generated_index ts files') = mset (generated_index ts files)"
    by (simp add: generated_index_def)
next
  assume a: "mset files' = mset files
    \<and> inj_on (\<lambda>f. ts (date (snd f))) {f \<in> set files. listed (snd f) \<and> published (snd f)}"
  then have "mset (filter in_index files') = mset (filter in_index files)"
    by simp
  moreover from a have "inj_on (\<lambda>f. - ts (date (snd f))) (set (filter in_index files))"
    by (auto simp add: inj_on_def in_index_def)
  ultimately show "generated_index ts files' = generated_index ts files"
    unfolding generated_index_def by (rule sort_key_unique)
qed

theorem index_listing_witness:
  "mset [(''old'', post\<lparr>date := ''May 1 2021''\<rparr>), (''hidden'', post\<lparr>listed := False\<rparr>), (''new'', post)]
     = mset [(''new'', post), (''old'', post\<lparr>date := ''May 1 2021''\<rparr>), (''hidden'', post\<lparr>listed := False\<rparr>)] \<and>
   generated_index days
       [(''old'', post\<lparr>date := ''May 1 2021''\<rparr>), (''hidden'', post\<lparr>listed := False\<rparr>), (''new'', post)]
     = [(''new'', post), (''old'', post\<lparr>date := ''May 1 2021''\<rparr>)] \<and>
   generated_index days
       [(''new'', post), (''old'', post\<lparr>date := ''May 1 2021''\<rparr>), (''hidden'', post\<lparr>listed := False\<rparr>)]
     = [(''new'', post), (''old'', post\<lparr>date := ''May 1 2021''\<rparr>)]"
proof -
  let ?old = "(''old'', post\<lparr>date := ''May 1 2021''\<rparr>)"
  let ?hidden = "(''hidden'', post\<lparr>listed := False\<rparr>)"
  let ?new = "(''new'', post)"
  have m: "mset [?old, ?hidden, ?new] = mset [?new, ?old, ?hidden]" by simp
  have s: "{f \<in> set [?new, ?old, ?hidden]. listed (snd f) \<and> published (snd f)} = {?new, ?old}"
    by (auto simp add: post_fields)
  have i: "inj_on (\<lambda>f. days (date (snd f)))
             {f \<in> set [?new, ?old, ?hidden]. listed (snd f) \<and> published (snd f)}"
    unfolding s by (simp add: post_fields days_values)
  have g: "generated_index days [?new, ?old, ?hidden] = [?new, ?old]"
    by (simp add: generated_index_def in_index_def post_fields days_values)
  from index_listing [of days "[?new, ?old, ?hidden]" "[?old, ?hidden, ?new]"] m i
  have "generated_index days [?old, ?hidden, ?new] = generated_index days [?new, ?old, ?hidden]"
    by blast
  with m g show ?thesis by (simp only: simp_thms)
qed

section \<open>The claim on the scroll provider\<close>

text \<open>
  Claim C7. For every offset in \<open>[0, maxOffset]\<close> the percent lies in \<open>[0, 100]\<close>. When
  \<open>maxOffset\<close> is 0, the document without overflow, it is 0. Otherwise it is the offset
  over \<open>maxOffset\<close> times 100, clamped, which the clamp leaves as it is, and it is 100
  when the offset equals \<open>maxOffset\<close>.
\<close>

theorem scroll_percent_in_range:
  assumes "0 \<le> offset" and "offset \<le> maxOffset"
  shows "0 \<le> scroll_percent offset maxOffset \<and> scroll_percent offset maxOffset \<le> 100
       \<and> (maxOffset = 0 \<longrightarrow> scroll_percent offset maxOffset = 0)
       \<and> (maxOffset \<noteq> 0 \<longrightarrow>
            scroll_percent offset maxOffset
              = min 100 (max 0 (real_of_int offset / real_of_int maxOffset * 100))
            \<and> scroll_percent offset maxOffset = real_of_int offset / real_of_int maxOffset * 100
            \<and> scroll_percent maxOffset maxOffset = 100)"
  using assms by (auto simp add: scroll_percent_def min_def max_def field_simps)

theorem scroll_percent_in_range_witness:
  "(0::int) \<le> 250 \<and> (250::int) \<le> 1000 \<and> (1000::int) \<noteq> 0 \<and>
   scroll_percent 250 1000 = 25 \<and> scroll_percent 1000 1000 = 100 \<and> scroll_percent 0 0 = 0"
proof -
  have a: "(0::int) \<le> 250" and b: "(250::int) \<le> 1000" by simp_all
  from scroll_percent_in_range [OF a b] scroll_percent_in_range [of 0 0] show ?thesis by simp
qed

section \<open>The claim on the heading slugs\<close>

text \<open>
  Claim C8. The slug of the heading \<^verbatim>\<open>Hello, World!\<close> is \<^verbatim>\<open>hello-world\<close>: the text is
  lower-cased, the comma and the exclamation mark are stripped, and the space between the
  words becomes the one separator.
\<close>

theorem slug_hello_world: "slug ''Hello, World!'' = ''hello-world''"
  by code_simp

end
